theory Spec2Isabelle
  imports Complex_Main "HOL-Library.Log_Nat" "HOL-Library.Multiset" "HOL-Library.Monad_Syntax"
begin

unbundle bit_operations_syntax

section \<open>The Crystal Router of libs/ogs/ogsCrystalRouter.cpp\<close>

text \<open>
  The development follows \<^verbatim>\<open>src/libs/ogs/ogsCrystalRouter.cpp\<close>. C \<^verbatim>\<open>int\<close> and
  \<^verbatim>\<open>dlong\<close> values are HOL integers: process counts, ranks and node counts stay far
  below the 32-bit limit, and none of the statements below depends on wrap-around. The
  rank of the process that runs the code (the member \<^verbatim>\<open>rank\<close>) is written \<open>r\<close>, the
  size of the communicator (the member \<^verbatim>\<open>size\<close>) is written \<open>NP\<close>.
\<close>

subsection \<open>Folding the hypercube: the loop that counts the levels\<close>

text \<open>
  Lines 204--221. Under the loop guard \<open>np > 1\<close> the operand of \<^verbatim>\<open>(np+1)/2\<close> is
  positive, so C's truncating division is \<open>div\<close>.
\<close>

function count_levels :: "int \<Rightarrow> int \<Rightarrow> int \<Rightarrow> nat" where
  "count_levels r np np_offset =
     (if np > 1 then
        (let np_half = (np + 1) div 2;
             r_half = np_half + np_offset;
             is_lo = (r < r_half)
         in if is_lo then Suc (count_levels r np_half np_offset)
            else Suc (count_levels r (np - np_half) r_half))
      else 0)"
  by pat_completeness auto
termination
  by (relation "measure (\<lambda>(r, np, np_offset). nat np)") auto

declare count_levels.simps [simp del]

text \<open>
  Lines 263--281 and 679--686: the partner and the message count of one round, for rank
  \<open>r\<close> in the window \<open>(np, np_offset)\<close>.
\<close>

definition level_partner :: "int \<Rightarrow> int \<Rightarrow> int \<Rightarrow> int \<times> int" where
  "level_partner r np np_offset =
     (let np_half = (np + 1) div 2;
          r_half = np_half + np_offset;
          partner = np - 1 - (r - np_offset) + np_offset;
          Nmsg = 1;
          (partner, Nmsg) = (if partner = r then (r_half, 0) else (partner, Nmsg));
          Nmsg = (if (np AND 1) \<noteq> 0 \<and> r = r_half then 2 else Nmsg)
      in (partner, Nmsg))"

text \<open>The shrinking of the window at the end of a round (lines 679--685).\<close>

definition shrink :: "int \<Rightarrow> int \<Rightarrow> int \<Rightarrow> int \<times> int" where
  "shrink r np np_offset =
     (let np_half = (np + 1) div 2;
          r_half = np_half + np_offset;
          is_lo = (r < r_half)
      in if is_lo then (np_half, np_offset) else (np - np_half, r_half))"

text \<open>
  The rounds of the building loop (line 263), as far as the topology goes: the window
  \<open>(np, np_offset)\<close> of every iteration, in order.
\<close>

function windows :: "int \<Rightarrow> int \<Rightarrow> int \<Rightarrow> (int \<times> int) list" where
  "windows r np np_offset =
     (if np > 1 then
        (np, np_offset) # windows r (fst (shrink r np np_offset)) (snd (shrink r np np_offset))
      else [])"
  by pat_completeness auto
termination
  by (relation "measure (\<lambda>(r, np, np_offset). nat np)") (auto simp: shrink_def Let_def)

declare windows.simps [simp del]

text \<open>The \<open>partner\<close> and \<open>Nmsg\<close> fields of the levels, in order.\<close>

definition level_topology :: "int \<Rightarrow> int \<Rightarrow> (int \<times> int) list" where
  "level_topology r NP = map (\<lambda>(np, np_offset). level_partner r np np_offset) (windows r NP 0)"

subsection \<open>Facts about the folding\<close>

lemma count_levels_windows: "count_levels r np off = length (windows r np off)"
proof (induction r np off rule: count_levels.induct)
  case (1 r np off)
  show ?case
  proof (cases "np > 1")
    case True
    show ?thesis
    proof (cases "r < (np + 1) div 2 + off")
      case lo: True
      with True 1(1)[OF True refl refl refl] show ?thesis
        by (subst count_levels.simps, subst windows.simps) (simp add: shrink_def Let_def)
    next
      case hi: False
      with True 1(2)[OF True refl refl refl] show ?thesis
        by (subst count_levels.simps, subst windows.simps) (simp add: shrink_def Let_def)
    qed
  next
    case False
    then show ?thesis by (subst count_levels.simps, subst windows.simps) simp
  qed
qed

lemma count_levels_upper: "1 \<le> np \<Longrightarrow> count_levels r np off \<le> ceillog2 (nat np)"
proof (induction r np off rule: count_levels.induct)
  case (1 r np off)
  show ?case
  proof (cases "np > 1")
    case True
    have rec: "ceillog2 (nat np) = 1 + ceillog2 ((nat np + 1) div 2)"
      using True by (subst ceillog2_rec) simp
    have half: "nat ((np + 1) div 2) = (nat np + 1) div 2" using True by (simp add: nat_div_distrib nat_add_distrib)
    show ?thesis
    proof (cases "r < (np + 1) div 2 + off")
      case lo: True
      have "count_levels r ((np + 1) div 2) off \<le> ceillog2 (nat ((np + 1) div 2))"
        using 1(1)[OF True refl refl refl] lo True by simp
      with True lo rec half show ?thesis
        by (subst count_levels.simps) (simp add: Let_def)
    next
      case hi: False
      have "count_levels r (np - (np + 1) div 2) ((np + 1) div 2 + off) \<le> ceillog2 (nat (np - (np + 1) div 2))"
        using 1(2)[OF True refl refl refl] hi True by simp
      moreover have "ceillog2 (nat (np - (np + 1) div 2)) \<le> ceillog2 ((nat np + 1) div 2)"
        using True by (intro ceillog2_mono) linarith
      ultimately show ?thesis using True hi rec
        by (subst count_levels.simps) (simp add: Let_def)
    qed
  next
    case False
    then show ?thesis by (subst count_levels.simps) simp
  qed
qed

lemma count_levels_lower: "1 \<le> np \<Longrightarrow> np < 2 ^ Suc (count_levels r np off)"
proof (induction r np off rule: count_levels.induct)
  case (1 r np off)
  show ?case
  proof (cases "np > 1")
    case True
    show ?thesis
    proof (cases "r < (np + 1) div 2 + off")
      case lo: True
      have "(np + 1) div 2 < 2 ^ Suc (count_levels r ((np + 1) div 2) off)"
        using 1(1)[OF True refl refl refl] lo True by simp
      then have "np < 2 ^ Suc (Suc (count_levels r ((np + 1) div 2) off))" by simp
      with True lo show ?thesis
        by (subst count_levels.simps) (simp add: Let_def)
    next
      case hi: False
      have "np - (np + 1) div 2 < 2 ^ Suc (count_levels r (np - (np + 1) div 2) ((np + 1) div 2 + off))"
        using 1(2)[OF True refl refl refl] hi True by simp
      then have "np < 2 ^ Suc (Suc (count_levels r (np - (np + 1) div 2) ((np + 1) div 2 + off)))" by simp
      with True hi show ?thesis
        by (subst count_levels.simps) (simp add: Let_def)
    qed
  next
    case False
    with 1(3) have "np = 1" by simp 
    then show ?thesis by (subst count_levels.simps) simp
  qed
qed

lemma count_levels_first: "1 \<le> np \<Longrightarrow> count_levels off np off = ceillog2 (nat np)"
proof (induction "nat np" arbitrary: np rule: less_induct)
  case less
  show ?case
  proof (cases "np > 1")
    case True
    have rec: "ceillog2 (nat np) = 1 + ceillog2 ((nat np + 1) div 2)"
      using True by (subst ceillog2_rec) simp
    have half: "nat ((np + 1) div 2) = (nat np + 1) div 2" using True by (simp add: nat_div_distrib nat_add_distrib)
    have "count_levels off ((np + 1) div 2) off = ceillog2 (nat ((np + 1) div 2))"
      using True by (intro less) auto
    moreover have "0 < (np + 1) div 2" using True by linarith
    ultimately show ?thesis using True rec half
      by (subst count_levels.simps) (simp add: Let_def)
  next
    case False
    then show ?thesis by (subst count_levels.simps) simp
  qed
qed

lemma and_one_odd: "((np::int) AND 1) \<noteq> 0 \<longleftrightarrow> odd np"
  by (simp add: and_one_eq mod_2_eq_odd)

lemma mirror_self:
  "(np - 1 - (r - off) + off = r) = (odd np \<and> r = (np + 1) div 2 + off - 1)" for np :: int
  by presburger

lemma level_partner_cases:
  "level_partner r np off =
    (if np - 1 - (r - off) + off = r then ((np + 1) div 2 + off, 0)
     else (np - 1 - (r - off) + off, if odd np \<and> r = (np + 1) div 2 + off then 2 else 1))"
proof (cases "np - 1 - (r - off) + off = r")
  case True
  then have "r \<noteq> (np + 1) div 2 + off" unfolding mirror_self by simp
  with True show ?thesis
    unfolding level_partner_def Let_def and_one_odd by simp
next
  case False
  then show ?thesis
    unfolding level_partner_def Let_def and_one_odd by simp
qed

lemma windows_pow2:
  "(n', off') \<in> set (windows r (2 ^ k) off) \<Longrightarrow> \<exists>j. n' = 2 ^ j \<and> 0 < j"
proof (induction k arbitrary: off)
  case 0
  then show ?case by (subst (asm) windows.simps) simp
next
  case (Suc k)
  have half: "((2::int) ^ Suc k + 1) div 2 = 2 ^ k" by simp
  have gt: "(1::int) < 2 ^ Suc k" by (smt (verit) one_less_power zero_less_Suc)
  from Suc.prems have "(n', off') = (2 ^ Suc k, off) \<or>
      (n', off') \<in> set (windows r (fst (shrink r (2 ^ Suc k) off)) (snd (shrink r (2 ^ Suc k) off)))"
    using gt by (subst (asm) windows.simps) (simp del: power_Suc)
  then show ?case
  proof
    assume "(n', off') = (2 ^ Suc k, off)"
    then show ?thesis by blast
  next
    assume a: "(n', off') \<in> set (windows r (fst (shrink r (2 ^ Suc k) off)) (snd (shrink r (2 ^ Suc k) off)))"
    have "fst (shrink r (2 ^ Suc k) off) = 2 ^ k"
      unfolding shrink_def Let_def half by (simp)
    with a Suc.IH show ?thesis by metis
  qed
qed

lemma count_levels_pow2: "count_levels r (2 ^ k) off = k"
proof (induction k arbitrary: off)
  case 0
  then show ?case by (subst count_levels.simps) simp
next
  case (Suc k)
  have half: "((2::int) ^ Suc k + 1) div 2 = 2 ^ k" by simp
  have gt: "(1::int) < 2 ^ Suc k" by (smt (verit) one_less_power zero_less_Suc)
  have sub: "(2::int) ^ Suc k - 2 ^ k = 2 ^ k" by simp
  show ?case
    by (subst count_levels.simps) (simp only: gt half sub if_True Let_def Suc.IH if_cancel)
qed


lemma shrink_inside:
  assumes "1 < np" "off \<le> r" "r < off + np"
  shows "1 \<le> fst (shrink r np off)" "fst (shrink r np off) < np"
    "off \<le> snd (shrink r np off)"
    "snd (shrink r np off) + fst (shrink r np off) \<le> off + np"
    "snd (shrink r np off) \<le> r" "r < snd (shrink r np off) + fst (shrink r np off)"
  using assms unfolding shrink_def Let_def by (auto split: if_splits) 

lemma windows_nth_inside:
  "l < length (windows r np off) \<Longrightarrow> windows r np off ! l = (n, b) \<Longrightarrow>
   off \<le> r \<Longrightarrow> r < off + np \<Longrightarrow>
   1 < n \<and> off \<le> b \<and> b + n \<le> off + np \<and> b \<le> r \<and> r < b + n"
proof (induction l arbitrary: np off)
  case 0
  then show ?case by (subst (asm) (1 2) windows.simps) (auto split: if_splits)
next
  case (Suc l)
  from Suc.prems(1) have gt: "1 < np" by (subst (asm) windows.simps) (auto split: if_splits)
  let ?np = "fst (shrink r np off)" and ?off = "snd (shrink r np off)"
  have unf: "windows r np off = (np, off) # windows r ?np ?off"
    using gt by (subst windows.simps) simp
  have "l < length (windows r ?np ?off)" "windows r ?np ?off ! l = (n, b)"
    using Suc.prems(1,2) unf by auto
  from Suc.IH[OF this shrink_inside(5,6)[OF gt Suc.prems(3,4)]]
    shrink_inside(3,4)[OF gt Suc.prems(3,4)]
  show ?case by linarith
qed

lemma shrink_same_half:
  assumes "1 < np" "off \<le> r" "r < off + np"
    and "snd (shrink r np off) \<le> r'" "r' < snd (shrink r np off) + fst (shrink r np off)"
  shows "shrink r' np off = shrink r np off"
  using assms unfolding shrink_def Let_def by (auto split: if_splits)

lemma windows_shared:
  "l < length (windows r np off) \<Longrightarrow> windows r np off ! l = (n, b) \<Longrightarrow>
   off \<le> r \<Longrightarrow> r < off + np \<Longrightarrow> b \<le> r' \<Longrightarrow> r' < b + n \<Longrightarrow>
   l < length (windows r' np off) \<and> windows r' np off ! l = (n, b)"
proof (induction l arbitrary: np off)
  case 0
  then show ?case by (subst (asm) (1 2) windows.simps, subst (1 2) windows.simps) (auto split: if_splits)
next
  case (Suc l)
  from Suc.prems(1) have gt: "1 < np" by (subst (asm) windows.simps) (auto split: if_splits)
  let ?np = "fst (shrink r np off)" and ?off = "snd (shrink r np off)"
  have unf: "windows r np off = (np, off) # windows r ?np ?off"
    using gt by (subst windows.simps) simp
  have tl: "l < length (windows r ?np ?off)" "windows r ?np ?off ! l = (n, b)"
    using Suc.prems(1,2) unf by auto
  note ins = windows_nth_inside[OF tl shrink_inside(5,6)[OF gt Suc.prems(3,4)]]
  have r': "?off \<le> r'" "r' < ?off + ?np" using ins Suc.prems(5,6) by auto
  have same: "shrink r' np off = shrink r np off"
    by (rule shrink_same_half[OF gt Suc.prems(3,4) r'])
  have unf': "windows r' np off = (np, off) # windows r' ?np ?off"
    using gt same by (subst windows.simps) simp
  from Suc.IH[OF tl shrink_inside(5,6)[OF gt Suc.prems(3,4)] Suc.prems(5,6)] unf'
  show ?case by simp
qed

lemma level_topology_length: "length (level_topology r NP) = count_levels r NP 0"
  by (simp add: level_topology_def count_levels_windows)

lemma level_partner_even: "even np \<Longrightarrow> snd (level_partner r np off) = 1"
  unfolding level_partner_cases mirror_self by simp

lemma level_topology_pow2:
  assumes "lv \<in> set (level_topology r (2 ^ k))"
  shows "snd lv = 1"
proof -
  from assms obtain n b where w: "(n, b) \<in> set (windows r (2 ^ k) 0)"
    and lv: "lv = level_partner r n b"
    by (auto simp: level_topology_def)
  from windows_pow2[OF w] have "even n" by auto
  with lv show ?thesis by (simp add: level_partner_even)
qed

text \<open>
  Claim C2, as the code has it. The number of levels is the number of rounds of the
  folding loop for the rank's own windows, and both schedules get one level per round.
  It is at most \<open>ceil(log2 NP)\<close> and at least \<open>floor(log2 NP)\<close> (that is,
  \<open>NP < 2 ^ (Nlevels + 1)\<close>); rank 0 reaches \<open>ceil(log2 NP)\<close>; and when \<open>NP\<close> is a power
  of two every rank builds exactly \<open>log2 NP\<close> levels, each with \<open>Nmsg = 1\<close>.
\<close>

theorem C2_level_count:
  assumes "0 \<le> r" and "r < NP"
  shows "length (level_topology r NP) = count_levels r NP 0 \<and>
     count_levels r NP 0 \<le> ceillog2 (nat NP) \<and>
     NP < 2 ^ Suc (count_levels r NP 0) \<and>
     count_levels 0 NP 0 = ceillog2 (nat NP) \<and>
     (\<forall>k. NP = 2 ^ k \<longrightarrow>
        count_levels r NP 0 = k \<and> (\<forall>lv \<in> set (level_topology r NP). snd lv = 1))"
proof -
  have one: "1 \<le> NP" using assms by simp
  show ?thesis
    using count_levels_upper[OF one] count_levels_lower[OF one] count_levels_first[OF one, of 0]
      level_topology_length count_levels_pow2 level_topology_pow2
    by blast
qed

theorem C2_level_count_witness:
  "(0::int) \<le> 1 \<and> (1::int) < 4 \<and> (4::int) = 2 ^ 2 \<and>
   length (level_topology 1 4) = 2 \<and> count_levels 1 4 0 = 2 \<and> ceillog2 (nat 4) = 2 \<and>
   level_topology 1 4 = [(2, 1), (0, 1)]"
proof -
  have t: "level_topology 1 4 = [(2, 1), (0, 1)]" by code_simp
  have c: "ceillog2 (nat 4) = 2" using ceillog2_2_power[of 2] by simp
  from C2_level_count[of 1 4] t c show ?thesis by simp
qed

text \<open>
  Claim C2 as stated fails: with three processes, rank 2 is alone in the upper half after
  the first fold and builds one level, while \<open>ceil(log2 3) = 2\<close>.
\<close>

theorem C2_counterexample:
  "count_levels 2 3 0 = 1 \<and> level_topology 2 3 = [(0, 2)] \<and> ceillog2 (nat 3) = 2"
proof -
  have a: "count_levels 2 3 0 = 1" by code_simp
  have b: "level_topology 2 3 = [(0, 2)]" by code_simp
  have "ceillog2 3 = 2" by (rule ceillog2_eqI) simp_all
  then have c: "ceillog2 (nat 3) = 2" by simp
  from a b c show ?thesis by simp
qed

text \<open>
  Claim C3. At level \<open>l\<close> of rank \<open>r\<close>, with window \<open>(np, off)\<close> and pivot
  \<open>r_half = (np+1)/2 + off\<close>: the rank lies in the window; the mirror formula yields the
  rank itself exactly when \<open>np\<close> is odd and \<open>r = r_half - 1\<close>; the recorded partner is
  the mirror, except for that rank, whose partner is \<open>r_half\<close> with \<open>Nmsg = 0\<close>; and
  \<open>Nmsg = 2\<close> exactly for rank \<open>r_half\<close> of an odd window. The rank with \<open>Nmsg = 2\<close>
  has rank \<open>r - 1 = r_half - 1\<close> in its window at the same level, sending to it and
  expecting nothing back; the rank with \<open>Nmsg = 0\<close> sends to a rank with \<open>Nmsg = 2\<close>;
  every other rank is the partner of its partner.
\<close>

theorem C3_partner_pairing:
  assumes r: "0 \<le> r" "r < NP"
    and l: "l < length (windows r NP 0)"
    and w: "windows r NP 0 ! l = (np, off)"
    and t: "level_topology r NP ! l = (partner, Nmsg)"
  shows "1 < np \<and> off \<le> r \<and> r < off + np \<and>
    ((np - 1 - (r - off) + off = r) = (odd np \<and> r = (np + 1) div 2 + off - 1)) \<and>
    partner = (if np - 1 - (r - off) + off = r then (np + 1) div 2 + off
               else np - 1 - (r - off) + off) \<and>
    Nmsg = (if np - 1 - (r - off) + off = r then 0
            else if odd np \<and> r = (np + 1) div 2 + off then 2 else 1) \<and>
    (Nmsg = 2 \<longrightarrow>
       l < length (windows (r - 1) NP 0) \<and> windows (r - 1) NP 0 ! l = (np, off) \<and>
       level_topology (r - 1) NP ! l = (r, 0)) \<and>
    (Nmsg = 0 \<longrightarrow>
       l < length (windows partner NP 0) \<and> windows partner NP 0 ! l = (np, off) \<and>
       snd (level_topology partner NP ! l) = 2) \<and>
    (Nmsg \<noteq> 0 \<longrightarrow>
       l < length (windows partner NP 0) \<and> windows partner NP 0 ! l = (np, off) \<and>
       fst (level_topology partner NP ! l) = r)"
proof -
  have ins: "1 < np \<and> 0 \<le> off \<and> off + np \<le> 0 + NP \<and> off \<le> r \<and> r < off + np"
    using windows_nth_inside[OF l w] r by simp
  have lp: "level_partner r np off = (partner, Nmsg)"
    using t l w by (simp add: level_topology_def)
  note mid = mirror_self[of np r off]
  have p: "partner = (if np - 1 - (r - off) + off = r then (np + 1) div 2 + off
               else np - 1 - (r - off) + off)"
    and m: "Nmsg = (if np - 1 - (r - off) + off = r then 0
            else if odd np \<and> r = (np + 1) div 2 + off then 2 else 1)"
    using lp unfolding level_partner_cases by (auto split: if_splits)
  have other: "l < length (windows q NP 0) \<and> windows q NP 0 ! l = (np, off) \<and>
       level_topology q NP ! l = level_partner q np off" if "off \<le> q" "q < off + np" for q
  proof -
    have "l < length (windows q NP 0) \<and> windows q NP 0 ! l = (np, off)"
      using windows_shared[OF l w _ _ that] r by simp
    then show ?thesis by (simp add: level_topology_def)
  qed
  have two: "l < length (windows (r - 1) NP 0) \<and> windows (r - 1) NP 0 ! l = (np, off) \<and>
       level_topology (r - 1) NP ! l = (r, 0)" if "Nmsg = 2"
  proof -
    from that m have od: "odd np" "r = (np + 1) div 2 + off" by (auto split: if_splits)
    have "off \<le> r - 1" "r - 1 < off + np" using od ins by auto
    moreover have "np - 1 - (r - 1 - off) + off = r - 1" unfolding mirror_self using od by simp
    ultimately show ?thesis using other[of "r - 1"] unfolding level_partner_cases using od by simp
  qed
  have zero: "l < length (windows partner NP 0) \<and> windows partner NP 0 ! l = (np, off) \<and>
       snd (level_topology partner NP ! l) = 2" if "Nmsg = 0"
  proof -
    from that m mid have od: "odd np" "r = (np + 1) div 2 + off - 1" by (auto split: if_splits)
    with p mid have pp: "partner = (np + 1) div 2 + off" by auto
    have "3 \<le> np" using od ins by presburger
    then have "off \<le> partner" "partner < off + np" using pp by auto
    moreover have "np - 1 - (partner - off) + off \<noteq> partner" unfolding mirror_self using pp by simp
    ultimately show ?thesis using other[of partner] unfolding level_partner_cases using od pp by simp
  qed
  have nonzero: "l < length (windows partner NP 0) \<and> windows partner NP 0 ! l = (np, off) \<and>
       fst (level_topology partner NP ! l) = r" if "Nmsg \<noteq> 0"
  proof -
    from that m have nm: "np - 1 - (r - off) + off \<noteq> r" by (auto split: if_splits)
    with p have pp: "partner = np - 1 - (r - off) + off" by auto
    have "off \<le> partner" "partner < off + np" using pp ins by auto
    moreover have "np - 1 - (partner - off) + off = r" using pp by simp
    moreover have "np - 1 - (partner - off) + off \<noteq> partner" using pp nm by simp
    ultimately show ?thesis using other[of partner] unfolding level_partner_cases by simp
  qed
  show ?thesis using ins mid p m two zero nonzero by blast
qed


theorem C3_partner_pairing_witness:
  "windows 2 3 0 ! 0 = (3, 0) \<and> level_topology 2 3 ! 0 = (0, 2) \<and>
   level_topology (2 - 1) 3 ! 0 = (2, 0) \<and> fst (level_topology 0 3 ! 0) = 2"
proof -
  have l: "0 < length (windows 2 3 0)" by code_simp
  have w: "windows 2 3 0 ! 0 = (3, 0)" by code_simp
  have t: "level_topology 2 3 ! 0 = (0, 2)" by code_simp
  from C3_partner_pairing[OF _ _ l w t] w t show ?thesis by simp
qed

section \<open>The data of the exchange object\<close>

text \<open>
  The node record of \<^verbatim>\<open>ogs/ogsUtils.hpp\<close>, with the fields this file reads and writes.
\<close>

record parallelNode_t =
  localId :: int
  baseId :: int
  rank :: int
  newId :: int
  sign :: int

text \<open>
  The sparse operator built for every level. In the source \<^verbatim>\<open>rowStartsN\<close>, \<^verbatim>\<open>colIdsN\<close>
  and \<^verbatim>\<open>nnzN\<close> share the storage of their \<^verbatim>\<open>T\<close> counterparts (lines 519, 522, 570,
  576), and the device arrays are copies of the finished host arrays (lines 639--646), so
  the record keeps one copy of each.
\<close>

record ogsOperator_t =
  NrowsN :: int
  NrowsT :: int
  Ncols :: int
  rowStartsT :: "int list"
  colIdsT :: "int list"
  nnzT :: int

record crLevel =
  Nmsg :: int
  partner :: int
  Nsend :: int
  Nrecv0 :: int
  Nrecv1 :: int
  recvOffset :: int
  sendIds :: "int list"
  gather :: ogsOperator_t

datatype Transpose = NoTrans | Trans

text \<open>
  The exchange object. A buffer is the list of its storage units (bytes), so its length
  is its capacity, what \<^verbatim>\<open>size()\<close> returns. \<^verbatim>\<open>buf[0]\<close>, \<^verbatim>\<open>buf[1]\<close> are the host halo
  buffers and \<^verbatim>\<open>o_buf[0]\<close>, \<^verbatim>\<open>o_buf[1]\<close> the device ones; the pointers \<^verbatim>\<open>haloBuf\<close>,
  \<^verbatim>\<open>recvBuf\<close>, \<^verbatim>\<open>o_haloBuf\<close>, \<^verbatim>\<open>o_recvBuf\<close> always name one of the two, and are kept as
  the index (0 or 1) of the buffer they point to.
\<close>

record 'b ogsCrystalRouter_t =
  NhaloP :: int
  Nhalo :: int
  Nlevels :: nat
  levelsN :: "crLevel list"
  levelsT :: "crLevel list"
  NsendMax :: int
  NrecvMax :: int
  gpu_aware :: bool
  sendBuf :: "'b list"
  o_sendBuf :: "'b list"
  buf0 :: "'b list"
  buf1 :: "'b list"
  o_buf0 :: "'b list"
  o_buf1 :: "'b list"
  haloBuf :: nat
  recvBuf :: nat
  o_haloBuf :: nat
  o_recvBuf :: nat
  buf_id :: nat

subsection \<open>AllocBuffer\<close>

text \<open>
  \<^verbatim>\<open>platform.malloc\<close> and \<^verbatim>\<open>platform.hostMalloc\<close> return memory of the requested size. Its
  content is indeterminate in the source; here it is \<open>n\<close> copies of a value \<open>junk\<close> that
  the caller of the model chooses, and no statement below depends on it.
\<close>

definition malloc :: "'b \<Rightarrow> nat \<Rightarrow> 'b list" where
  "malloc junk n = replicate n junk"

text \<open>Lines 703--721. \<^verbatim>\<open>NsendMax\<close> and \<^verbatim>\<open>NrecvMax\<close> are maxima that start at 0.\<close>

definition AllocBuffer :: "'b \<Rightarrow> nat \<Rightarrow> 'b ogsCrystalRouter_t \<Rightarrow> 'b ogsCrystalRouter_t" where
  "AllocBuffer junk Nbytes s =
     (let s = (if length (o_sendBuf s) < nat (NsendMax s) * Nbytes then
                 s\<lparr>sendBuf := malloc junk (nat (NsendMax s) * Nbytes),
                   o_sendBuf := malloc junk (nat (NsendMax s) * Nbytes)\<rparr>
               else s)
      in (if length (o_buf0 s) < nat (NrecvMax s) * Nbytes then
            s\<lparr>buf0 := malloc junk (nat (NrecvMax s) * Nbytes),
              buf1 := malloc junk (nat (NrecvMax s) * Nbytes),
              haloBuf := 0,
              recvBuf := 1,
              o_buf0 := malloc junk (nat (NrecvMax s) * Nbytes),
              o_buf1 := malloc junk (nat (NrecvMax s) * Nbytes),
              o_haloBuf := 0,
              o_recvBuf := 1,
              buf_id := 0\<rparr>
          else s))"

text \<open>A sequence of calls, one per requested size, in order.\<close>

definition AllocBuffers :: "'b \<Rightarrow> nat list \<Rightarrow> 'b ogsCrystalRouter_t \<Rightarrow> 'b ogsCrystalRouter_t" where
  "AllocBuffers junk reqs s = fold (AllocBuffer junk) reqs s"

text \<open>
  The two halo buffers and their host mirrors are allocated together, and the send buffer
  with its host mirror: in a fresh object all are empty, and every call keeps them paired.
\<close>

definition paired :: "'b ogsCrystalRouter_t \<Rightarrow> bool" where
  "paired s \<longleftrightarrow>
     length (sendBuf s) = length (o_sendBuf s) \<and>
     length (o_buf1 s) = length (o_buf0 s) \<and>
     length (buf0 s) = length (o_buf0 s) \<and>
     length (buf1 s) = length (o_buf0 s)"

lemma AllocBuffer_consts [simp]:
  "NsendMax (AllocBuffer junk b s) = NsendMax s"
  "NrecvMax (AllocBuffer junk b s) = NrecvMax s"
  by (simp_all add: AllocBuffer_def Let_def)

lemma AllocBuffer_send_len:
  "length (o_sendBuf (AllocBuffer junk b s)) = max (length (o_sendBuf s)) (nat (NsendMax s) * b)"
  by (simp add: AllocBuffer_def Let_def malloc_def)

lemma AllocBuffer_halo_len:
  "length (o_buf0 (AllocBuffer junk b s)) = max (length (o_buf0 s)) (nat (NrecvMax s) * b)"
  by (simp add: AllocBuffer_def Let_def malloc_def)

lemma AllocBuffer_paired: "paired s \<Longrightarrow> paired (AllocBuffer junk b s)"
  by (simp add: AllocBuffer_def Let_def malloc_def paired_def)

lemma AllocBuffer_enough:
  "nat (NsendMax s) * b \<le> length (o_sendBuf s) \<Longrightarrow> nat (NrecvMax s) * b \<le> length (o_buf0 s) \<Longrightarrow>
   AllocBuffer junk b s = s"
  by (simp add: AllocBuffer_def Let_def)

lemma AllocBuffer_send_kept:
  "nat (NsendMax s) * b \<le> length (o_sendBuf s) \<Longrightarrow>
   sendBuf (AllocBuffer junk b s) = sendBuf s \<and> o_sendBuf (AllocBuffer junk b s) = o_sendBuf s"
  by (simp add: AllocBuffer_def Let_def)

lemma AllocBuffer_halo_kept:
  "nat (NrecvMax s) * b \<le> length (o_buf0 s) \<Longrightarrow>
   buf0 (AllocBuffer junk b s) = buf0 s \<and> buf1 (AllocBuffer junk b s) = buf1 s \<and>
   o_buf0 (AllocBuffer junk b s) = o_buf0 s \<and> o_buf1 (AllocBuffer junk b s) = o_buf1 s \<and>
   haloBuf (AllocBuffer junk b s) = haloBuf s \<and> recvBuf (AllocBuffer junk b s) = recvBuf s \<and>
   o_haloBuf (AllocBuffer junk b s) = o_haloBuf s \<and> o_recvBuf (AllocBuffer junk b s) = o_recvBuf s \<and>
   buf_id (AllocBuffer junk b s) = buf_id s"
  by (simp add: AllocBuffer_def Let_def)

lemma AllocBuffers_snoc:
  "AllocBuffers junk (reqs @ [b]) s = AllocBuffer junk b (AllocBuffers junk reqs s)"
  by (simp add: AllocBuffers_def)

lemma AllocBuffers_consts [simp]:
  "NsendMax (AllocBuffers junk reqs s) = NsendMax s"
  "NrecvMax (AllocBuffers junk reqs s) = NrecvMax s"
  by (induction reqs rule: rev_induct) (simp_all add: AllocBuffers_snoc, simp_all add: AllocBuffers_def)

lemma AllocBuffers_paired: "paired s \<Longrightarrow> paired (AllocBuffers junk reqs s)"
  by (induction reqs rule: rev_induct) (simp_all add: AllocBuffers_snoc AllocBuffer_paired, simp add: AllocBuffers_def)

lemma AllocBuffers_send_cap:
  "b \<in> set reqs \<Longrightarrow> nat (NsendMax s) * b \<le> length (o_sendBuf (AllocBuffers junk reqs s))"
proof (induction reqs rule: rev_induct)
  case Nil
  then show ?case by simp
next
  case (snoc x xs)
  then show ?case
    by (auto simp: AllocBuffers_snoc AllocBuffer_send_len)
qed

lemma AllocBuffers_halo_cap:
  "b \<in> set reqs \<Longrightarrow> nat (NrecvMax s) * b \<le> length (o_buf0 (AllocBuffers junk reqs s))"
proof (induction reqs rule: rev_induct)
  case Nil
  then show ?case by simp
next
  case (snoc x xs)
  then show ?case
    by (auto simp: AllocBuffers_snoc AllocBuffer_halo_len)
qed

lemma take_Suc_snoc: "n < length xs \<Longrightarrow> take (Suc n) xs = take n xs @ [xs ! n]"
  by (simp add: take_Suc_conv_app_nth)

text \<open>
  Claim C7. Take any sequence \<open>reqs\<close> of requested sizes and an object whose buffers are
  paired (a fresh object is). After call number \<open>n\<close> (state \<open>t'\<close>, from state \<open>t\<close>):
  the send buffers hold at least \<open>NsendMax\<close> times every size requested so far and the
  four halo buffers at least \<open>NrecvMax\<close> times it; no capacity has shrunk; the send
  buffers are the same memory when the request fitted the send capacity, and the halo
  buffers, their pointers and \<open>buf_id\<close> likewise; and a request no larger than an earlier
  one (field width 1 after 8) leaves the whole object as it was.
\<close>

theorem C7_buffers_grow:
  assumes "paired s" and "n < length reqs"
  shows "let t = AllocBuffers junk (take n reqs) s;
             t' = AllocBuffers junk (take (Suc n) reqs) s;
             b = reqs ! n
         in t' = AllocBuffer junk b t \<and> paired t' \<and>
            (\<forall>c \<in> set (take (Suc n) reqs).
               nat (NsendMax s) * c \<le> length (o_sendBuf t') \<and>
               nat (NsendMax s) * c \<le> length (sendBuf t') \<and>
               nat (NrecvMax s) * c \<le> length (o_buf0 t') \<and>
               nat (NrecvMax s) * c \<le> length (o_buf1 t') \<and>
               nat (NrecvMax s) * c \<le> length (buf0 t') \<and>
               nat (NrecvMax s) * c \<le> length (buf1 t')) \<and>
            length (o_sendBuf t) \<le> length (o_sendBuf t') \<and>
            length (o_buf0 t) \<le> length (o_buf0 t') \<and>
            length (o_buf1 t) \<le> length (o_buf1 t') \<and>
            (nat (NsendMax s) * b \<le> length (o_sendBuf t) \<longrightarrow>
               sendBuf t' = sendBuf t \<and> o_sendBuf t' = o_sendBuf t) \<and>
            (nat (NrecvMax s) * b \<le> length (o_buf0 t) \<longrightarrow>
               buf0 t' = buf0 t \<and> buf1 t' = buf1 t \<and> o_buf0 t' = o_buf0 t \<and> o_buf1 t' = o_buf1 t \<and>
               haloBuf t' = haloBuf t \<and> recvBuf t' = recvBuf t \<and>
               o_haloBuf t' = o_haloBuf t \<and> o_recvBuf t' = o_recvBuf t \<and> buf_id t' = buf_id t) \<and>
            ((\<exists>c \<in> set (take n reqs). b \<le> c) \<longrightarrow> t' = t)"
proof -
  define t where "t = AllocBuffers junk (take n reqs) s"
  define t' where "t' = AllocBuffers junk (take (Suc n) reqs) s"
  define b where "b = reqs ! n"
  have step: "t' = AllocBuffer junk b t"
    unfolding t'_def t_def b_def take_Suc_snoc[OF assms(2)] AllocBuffers_snoc ..
  have pt: "paired t" unfolding t_def by (rule AllocBuffers_paired[OF assms(1)])
  have pt': "paired t'" unfolding t'_def by (rule AllocBuffers_paired[OF assms(1)])
  have cs [simp]: "NsendMax t = NsendMax s" "NrecvMax t = NrecvMax s" by (simp_all add: t_def)
  have caps: "nat (NsendMax s) * c \<le> length (o_sendBuf t') \<and>
               nat (NsendMax s) * c \<le> length (sendBuf t') \<and>
               nat (NrecvMax s) * c \<le> length (o_buf0 t') \<and>
               nat (NrecvMax s) * c \<le> length (o_buf1 t') \<and>
               nat (NrecvMax s) * c \<le> length (buf0 t') \<and>
               nat (NrecvMax s) * c \<le> length (buf1 t')" if "c \<in> set (take (Suc n) reqs)" for c
    using AllocBuffers_send_cap[OF that, of s junk] AllocBuffers_halo_cap[OF that, of s junk] pt'
    unfolding t'_def[symmetric] paired_def by simp
  have mono: "length (o_sendBuf t) \<le> length (o_sendBuf t')" "length (o_buf0 t) \<le> length (o_buf0 t')"
    unfolding step by (simp_all add: AllocBuffer_send_len AllocBuffer_halo_len)
  have mono1: "length (o_buf1 t) \<le> length (o_buf1 t')"
    using mono(2) pt pt' by (simp add: paired_def)
  have ks: "nat (NsendMax s) * b \<le> length (o_sendBuf t) \<longrightarrow>
               sendBuf t' = sendBuf t \<and> o_sendBuf t' = o_sendBuf t"
    unfolding step using AllocBuffer_send_kept[of t b junk] by simp
  have kh: "nat (NrecvMax s) * b \<le> length (o_buf0 t) \<longrightarrow>
               buf0 t' = buf0 t \<and> buf1 t' = buf1 t \<and> o_buf0 t' = o_buf0 t \<and> o_buf1 t' = o_buf1 t \<and>
               haloBuf t' = haloBuf t \<and> recvBuf t' = recvBuf t \<and>
               o_haloBuf t' = o_haloBuf t \<and> o_recvBuf t' = o_recvBuf t \<and> buf_id t' = buf_id t"
    unfolding step using AllocBuffer_halo_kept[of t b junk] by simp
  have same: "t' = t" if "\<exists>c \<in> set (take n reqs). b \<le> c"
  proof -
    from that obtain c where c: "c \<in> set (take n reqs)" "b \<le> c" by blast
    have le: "nat (NsendMax s) * b \<le> nat (NsendMax s) * c" "nat (NrecvMax s) * b \<le> nat (NrecvMax s) * c"
      using c(2) by (simp_all only: mult_le_mono2)
    have "nat (NsendMax s) * b \<le> length (o_sendBuf t)"
      using le(1) AllocBuffers_send_cap[OF c(1), of s junk] unfolding t_def[symmetric] by (rule order_trans)
    moreover have "nat (NrecvMax s) * b \<le> length (o_buf0 t)"
      using le(2) AllocBuffers_halo_cap[OF c(1), of s junk] unfolding t_def[symmetric] by (rule order_trans)
    ultimately have "nat (NsendMax t) * b \<le> length (o_sendBuf t)" "nat (NrecvMax t) * b \<le> length (o_buf0 t)"
      by simp_all
    then show ?thesis unfolding step by (rule AllocBuffer_enough)
  qed
  show ?thesis
    unfolding Let_def t_def[symmetric] t'_def[symmetric] b_def[symmetric]
    using step pt' caps mono mono1 ks kh same by blast
qed


text \<open>A fresh object with \<open>NsendMax = 2\<close> and \<open>NrecvMax = 3\<close>, no buffer allocated yet.\<close>

definition fresh_router :: "nat ogsCrystalRouter_t" where
  "fresh_router =
     \<lparr>NhaloP = 1, Nhalo = 2, Nlevels = 0, levelsN = [], levelsT = [],
      NsendMax = 2, NrecvMax = 3, gpu_aware = False,
      sendBuf = [], o_sendBuf = [], buf0 = [], buf1 = [], o_buf0 = [], o_buf1 = [],
      haloBuf = 0, recvBuf = 1, o_haloBuf = 0, o_recvBuf = 1, buf_id = 0\<rparr>"

theorem C7_buffers_grow_witness:
  "paired fresh_router \<and> (2::nat) < length [4, 32, 4 :: nat] \<and>
   AllocBuffers 0 [4, 32, 4] fresh_router = AllocBuffers 0 [4, 32] fresh_router \<and>
   length (o_sendBuf (AllocBuffers 0 [4] fresh_router)) = 8 \<and>
   length (o_buf0 (AllocBuffers 0 [4] fresh_router)) = 12 \<and>
   length (o_sendBuf (AllocBuffers 0 [4, 32] fresh_router)) = 64 \<and>
   length (o_buf1 (AllocBuffers 0 [4, 32] fresh_router)) = 96 \<and>
   length (o_sendBuf (AllocBuffers 0 [4, 32, 4] fresh_router)) = 64 \<and>
   length (o_buf1 (AllocBuffers 0 [4, 32, 4] fresh_router)) = 96"
proof -
  have p: "paired fresh_router" by (simp add: paired_def fresh_router_def)
  have n: "(2::nat) < length [4, 32, 4 :: nat]" by simp
  have t2: "take 2 [4, 32, 4 :: nat] = [4, 32]" and t3: "take (Suc 2) [4, 32, 4 :: nat] = [4, 32, 4]"
    by simp_all
  note inst = C7_buffers_grow[OF p n, of 0, unfolded Let_def t2 t3]
  from inst have "(\<exists>c \<in> set [4, 32 :: nat]. [4, 32, 4] ! 2 \<le> c) \<longrightarrow>
      AllocBuffers 0 [4, 32, 4] fresh_router = AllocBuffers 0 [4, 32] fresh_router"
    by (elim conjE)
  then have same: "AllocBuffers 0 [4, 32, 4] fresh_router = AllocBuffers 0 [4, 32] fresh_router"
    by simp
  have a: "length (o_sendBuf (AllocBuffers 0 [4] fresh_router)) = 8"
    "length (o_buf0 (AllocBuffers 0 [4] fresh_router)) = 12"
    by (simp_all add: AllocBuffers_def AllocBuffer_def Let_def malloc_def fresh_router_def)
  have b: "length (o_sendBuf (AllocBuffers 0 [4, 32] fresh_router)) = 64"
    "length (o_buf1 (AllocBuffers 0 [4, 32] fresh_router)) = 96"
    by (simp_all add: AllocBuffers_def AllocBuffer_def Let_def malloc_def fresh_router_def)
  show ?thesis using p n same a b by simp
qed

section \<open>The sign propagation that ends a round\<close>

text \<open>
  Lines 660--677. The loop runs over the array that \<^verbatim>\<open>std::sort\<close> has just ordered by
  \<open>newId\<close> (line 655), sees a group as a run of neighbours with one \<open>abs(baseId)\<close>, looks
  for the first positive sign in the run and, when there is one, writes it into every
  record of the run. Array indices are natural numbers; \<open>n + 1\<close> is read only when
  \<open>n\<close> is not the last index, as the short-circuit \<^verbatim>\<open>||\<close> has it.
\<close>

definition absId :: "parallelNode_t \<Rightarrow> int" where
  "absId a = \<bar>baseId a\<bar>"

definition set_signs :: "parallelNode_t list \<Rightarrow> nat \<Rightarrow> nat \<Rightarrow> int \<Rightarrow> parallelNode_t list" where
  "set_signs nodes start end s = fold (\<lambda>j ns. ns[j := (ns ! j)\<lparr>sign := s\<rparr>]) [start..<end] nodes"

definition propagate_step :: "nat \<Rightarrow> nat \<times> parallelNode_t list \<Rightarrow> nat \<times> parallelNode_t list" where
  "propagate_step n st =
     (let start = fst st; nodes = snd st in
      if n = length nodes - 1 \<or> absId (nodes ! n) \<noteq> absId (nodes ! (n + 1)) then
        (let end = n + 1 in
         (end, case find (\<lambda>i. sign (nodes ! i) > 0) [start..<end] of
                 Some i \<Rightarrow> set_signs nodes start end (sign (nodes ! i))
               | None \<Rightarrow> nodes))
      else (start, nodes))"

definition propagate_sign :: "parallelNode_t list \<Rightarrow> parallelNode_t list" where
  "propagate_sign nodes = snd (fold propagate_step [0..<length nodes] (0, nodes))"

text \<open>Records that share one \<open>abs(baseId)\<close> are neighbours in the array.\<close>

definition grouped :: "parallelNode_t list \<Rightarrow> bool" where
  "grouped xs \<longleftrightarrow>
     (\<forall>i j k. i < j \<and> j < k \<and> k < length xs \<and> absId (xs ! i) = absId (xs ! k)
        \<longrightarrow> absId (xs ! j) = absId (xs ! i))"

subsection \<open>What the pass computes\<close>

lemma set_signs_Suc:
  "a \<le> e \<Longrightarrow> set_signs ns a (Suc e) s =
     (set_signs ns a e s)[e := (set_signs ns a e s ! e)\<lparr>sign := s\<rparr>]"
  by (simp add: set_signs_def)

lemma set_signs_empty: "e \<le> a \<Longrightarrow> set_signs ns a e s = ns"
  by (simp add: set_signs_def)

lemma set_signs_length [simp]: "length (set_signs ns a e s) = length ns"
proof (induction e)
  case 0
  then show ?case by (simp add: set_signs_empty)
next
  case (Suc e)
  then show ?case by (cases "a \<le> e") (simp_all add: set_signs_Suc set_signs_empty)
qed

lemma set_signs_nth:
  "i < length ns \<Longrightarrow>
   set_signs ns a e s ! i = (if a \<le> i \<and> i < e then (ns ! i)\<lparr>sign := s\<rparr> else ns ! i)"
proof (induction e)
  case 0
  then show ?case by (simp add: set_signs_empty)
next
  case (Suc e)
  show ?case
  proof (cases "a \<le> e")
    case True
    with Suc show ?thesis
      by (cases "i = e") (auto simp: set_signs_Suc nth_list_update)
  next
    case False
    then show ?thesis by (simp add: set_signs_empty)
  qed
qed

lemma find_upt_Some:
  "find P [lo..<hi] = Some j \<longleftrightarrow> lo \<le> j \<and> j < hi \<and> P j \<and> (\<forall>k. lo \<le> k \<and> k < j \<longrightarrow> \<not> P k)"
proof
  assume "find P [lo..<hi] = Some j"
  then obtain i where i: "i < length [lo..<hi]" "P ([lo..<hi] ! i)" "j = [lo..<hi] ! i"
    "\<forall>m<i. \<not> P ([lo..<hi] ! m)"
    unfolding find_Some_iff by blast
  have j: "j = lo + i" "i < hi - lo" using i(1,3) by simp_all
  have "\<not> P k" if "lo \<le> k" "k < j" for k
  proof -
    have "k - lo < i" using that j by simp
    with i(4) have "\<not> P ([lo..<hi] ! (k - lo))" by blast
    moreover have "[lo..<hi] ! (k - lo) = k" using that j by simp
    ultimately show ?thesis by simp
  qed
  with i j show "lo \<le> j \<and> j < hi \<and> P j \<and> (\<forall>k. lo \<le> k \<and> k < j \<longrightarrow> \<not> P k)" by simp
next
  assume a: "lo \<le> j \<and> j < hi \<and> P j \<and> (\<forall>k. lo \<le> k \<and> k < j \<longrightarrow> \<not> P k)"
  show "find P [lo..<hi] = Some j"
    unfolding find_Some_iff
  proof (intro exI[of _ "j - lo"] conjI allI impI)
    show "j - lo < length [lo..<hi]" using a by auto
    show "P ([lo..<hi] ! (j - lo))" using a by simp
    show "j = [lo..<hi] ! (j - lo)" using a by simp
    fix m assume m: "m < j - lo"
    then have "lo + m < hi" "lo \<le> lo + m" "lo + m < j" using a by auto
    then show "\<not> P ([lo..<hi] ! m)" using a by simp
  qed
qed

lemma find_upt_None: "find P [lo..<hi] = None \<longleftrightarrow> (\<forall>k. lo \<le> k \<and> k < hi \<longrightarrow> \<not> P k)"
  unfolding find_None_iff by auto

lemma find_upt_cong:
  "(\<And>k. lo \<le> k \<Longrightarrow> k < hi \<Longrightarrow> P k = Q k) \<Longrightarrow> find P [lo..<hi] = find Q [lo..<hi]"
  by (rule find_cong) auto

definition maxrun :: "parallelNode_t list \<Rightarrow> nat \<Rightarrow> nat \<Rightarrow> bool" where
  "maxrun xs lo hi \<longleftrightarrow>
     lo < hi \<and> hi \<le> length xs \<and>
     (\<forall>k. lo \<le> k \<and> k < hi \<longrightarrow> absId (xs ! k) = absId (xs ! lo)) \<and>
     (lo = 0 \<or> absId (xs ! (lo - 1)) \<noteq> absId (xs ! lo)) \<and>
     (hi = length xs \<or> absId (xs ! hi) \<noteq> absId (xs ! lo))"

definition done_at :: "parallelNode_t list \<Rightarrow> nat \<Rightarrow> parallelNode_t \<Rightarrow> bool" where
  "done_at xs i y \<longleftrightarrow>
     (\<exists>lo hi. maxrun xs lo hi \<and> lo \<le> i \<and> i < hi \<and>
        (case find (\<lambda>k. sign (xs ! k) > 0) [lo..<hi] of
           Some j \<Rightarrow> y = (xs ! i)\<lparr>sign := sign (xs ! j)\<rparr>
         | None \<Rightarrow> y = xs ! i))"

definition prop_inv :: "parallelNode_t list \<Rightarrow> nat \<Rightarrow> nat \<times> parallelNode_t list \<Rightarrow> bool" where
  "prop_inv xs n st \<longleftrightarrow>
     length (snd st) = length xs \<and> fst st \<le> n \<and> (n = length xs \<longrightarrow> fst st = n) \<and>
     (\<forall>i. fst st \<le> i \<and> i < length xs \<longrightarrow> snd st ! i = xs ! i) \<and>
     (\<forall>i. fst st \<le> i \<and> i \<le> n \<and> i < length xs \<longrightarrow> absId (xs ! i) = absId (xs ! fst st)) \<and>
     (fst st = 0 \<or> fst st = length xs \<or> absId (xs ! (fst st - 1)) \<noteq> absId (xs ! fst st)) \<and>
     (\<forall>i<fst st. done_at xs i (snd st ! i))"

lemma prop_inv_step:
  assumes inv: "prop_inv xs n st" and n: "n < length xs"
  shows "prop_inv xs (Suc n) (propagate_step n st)"
proof -
  obtain start ns where st: "st = (start, ns)" by (cases st)
  let ?N = "length xs"
  from inv have I: "length ns = ?N \<and> start \<le> n \<and> (n = ?N \<longrightarrow> start = n) \<and>
     (\<forall>i. start \<le> i \<and> i < ?N \<longrightarrow> ns ! i = xs ! i) \<and>
     (\<forall>i. start \<le> i \<and> i \<le> n \<and> i < ?N \<longrightarrow> absId (xs ! i) = absId (xs ! start)) \<and>
     (start = 0 \<or> start = ?N \<or> absId (xs ! (start - 1)) \<noteq> absId (xs ! start)) \<and>
     (\<forall>i<start. done_at xs i (ns ! i))"
    unfolding prop_inv_def st fst_conv snd_conv .
  from I have len: "length ns = ?N" and sn: "start \<le> n" by blast+
  from I have same: "ns ! i = xs ! i" if "start \<le> i" "i < ?N" for i using that by blast
  from I have homo: "absId (xs ! i) = absId (xs ! start)" if "start \<le> i" "i \<le> n" "i < ?N" for i
    using that by blast
  from I have left: "start = 0 \<or> start = ?N \<or> absId (xs ! (start - 1)) \<noteq> absId (xs ! start)"
    by blast
  from I have dn: "done_at xs i (ns ! i)" if "i < start" for i using that by blast
  show ?thesis
  proof (cases "n = length ns - 1 \<or> absId (ns ! n) \<noteq> absId (ns ! (n + 1))")
    case False
    then have nl: "Suc n < ?N" and eq: "absId (ns ! n) = absId (ns ! (n + 1))"
      using n len by auto
    have eq': "absId (xs ! Suc n) = absId (xs ! n)" using eq same[of n] same[of "Suc n"] sn nl by simp
    have step: "propagate_step n st = (start, ns)"
      using False by (simp add: propagate_step_def st Let_def)
    have "absId (xs ! i) = absId (xs ! start)" if "start \<le> i" "i \<le> Suc n" "i < ?N" for i
    proof (cases "i = Suc n")
      case True
      then show ?thesis using eq' homo[of n] sn n by simp
    next
      case False
      then show ?thesis using homo[of i] that by simp
    qed
    then have homo': "\<forall>i. start \<le> i \<and> i \<le> Suc n \<and> i < ?N \<longrightarrow> absId (xs ! i) = absId (xs ! start)"
      by blast
    show ?thesis
      unfolding step prop_inv_def fst_conv snd_conv
    proof (intro conjI)
      show "length ns = ?N" by (rule len)
      show "start \<le> Suc n" using sn by simp
      show "Suc n = ?N \<longrightarrow> start = Suc n" using nl by simp
      show "\<forall>i. start \<le> i \<and> i < ?N \<longrightarrow> ns ! i = xs ! i" using same by blast
      show "\<forall>i. start \<le> i \<and> i \<le> Suc n \<and> i < ?N \<longrightarrow> absId (xs ! i) = absId (xs ! start)"
        by (rule homo')
      show "start = 0 \<or> start = ?N \<or> absId (xs ! (start - 1)) \<noteq> absId (xs ! start)" by (rule left)
      show "\<forall>i<start. done_at xs i (ns ! i)" using dn by blast
    qed
  next
    case True
    then have bnd: "Suc n = ?N \<or> absId (xs ! Suc n) \<noteq> absId (xs ! start)"
    proof
      assume "n = length ns - 1"
      then have "Suc n = ?N" using len n by arith
      then show ?thesis ..
    next
      assume a: "absId (ns ! n) \<noteq> absId (ns ! (n + 1))"
      show ?thesis
      proof (cases "Suc n = ?N")
        case False
        then have "Suc n < ?N" using n by simp
        then show ?thesis using a same[of n] same[of "Suc n"] sn homo[of n] n by simp
      qed simp
    qed
    have run: "maxrun xs start (Suc n)"
      unfolding maxrun_def
    proof (intro conjI allI impI)
      show "start < Suc n" using sn by simp
      show "Suc n \<le> ?N" using n by simp
      show "absId (xs ! k) = absId (xs ! start)" if "start \<le> k \<and> k < Suc n" for k
        using homo[of k] that n by simp
      show "start = 0 \<or> absId (xs ! (start - 1)) \<noteq> absId (xs ! start)"
        using left sn n by auto
      show "Suc n = ?N \<or> absId (xs ! Suc n) \<noteq> absId (xs ! start)" by (rule bnd)
    qed
    have fnd: "find (\<lambda>i. sign (ns ! i) > 0) [start..<n + 1] = find (\<lambda>k. sign (xs ! k) > 0) [start..<n + 1]"
      by (rule find_upt_cong) (use same n in auto)
    define ns' where "ns' = (case find (\<lambda>k. sign (xs ! k) > 0) [start..<n + 1] of
                 Some i \<Rightarrow> set_signs ns start (n + 1) (sign (ns ! i))
               | None \<Rightarrow> ns)"
    have "propagate_step n st = (n + 1, ns')"
      using True by (simp only: propagate_step_def st Let_def fst_conv snd_conv fnd ns'_def if_True)
    then have step: "propagate_step n st = (Suc n, ns')" by simp
    have len': "length ns' = ?N" by (simp add: ns'_def len split: option.split)
    have out: "ns' ! i = ns ! i" if "i < start \<or> Suc n \<le> i" "i < ?N" for i
      using that len by (auto simp: ns'_def set_signs_nth split: option.split)
    have inn: "done_at xs i (ns' ! i)" if "start \<le> i" "i < Suc n" for i
    proof -
      have i: "i < ?N" using that n by simp
      have "case find (\<lambda>k. sign (xs ! k) > 0) [start..<Suc n] of
           Some j \<Rightarrow> ns' ! i = (xs ! i)\<lparr>sign := sign (xs ! j)\<rparr>
         | None \<Rightarrow> ns' ! i = xs ! i"
      proof (cases "find (\<lambda>k. sign (xs ! k) > 0) [start..<Suc n]")
        case None
        then show ?thesis using same[OF that(1) i] by (simp add: ns'_def)
      next
        case (Some j)
        then have j: "start \<le> j" "j < Suc n" unfolding find_upt_Some by auto
        then have "ns ! j = xs ! j" using same[of j] n by simp
        then show ?thesis using Some that i len same[OF that(1) i]
          by (simp add: ns'_def set_signs_nth)
      qed
      with run that show ?thesis unfolding done_at_def by blast
    qed
    have dn': "done_at xs i (ns' ! i)" if "i < Suc n" for i
    proof (cases "i < start")
      case True
      then show ?thesis using dn[of i] out[of i] sn n by simp
    next
      case False
      then show ?thesis using inn[of i] that by simp
    qed
    have same': "ns' ! i = xs ! i" if "Suc n \<le> i" "i < ?N" for i
      using out[of i] same[of i] that sn by simp
    have left': "Suc n = 0 \<or> Suc n = ?N \<or> absId (xs ! (Suc n - 1)) \<noteq> absId (xs ! Suc n)"
      using bnd homo[of n] sn n by auto
    show ?thesis
      unfolding step prop_inv_def fst_conv snd_conv
    proof (intro conjI)
      show "length ns' = ?N" by (rule len')
      show "Suc n \<le> Suc n" by simp
      show "Suc n = ?N \<longrightarrow> Suc n = Suc n" by simp
      show "\<forall>i. Suc n \<le> i \<and> i < ?N \<longrightarrow> ns' ! i = xs ! i" using same' by blast
      show "\<forall>i. Suc n \<le> i \<and> i \<le> Suc n \<and> i < ?N \<longrightarrow> absId (xs ! i) = absId (xs ! Suc n)"
        by (auto simp: le_antisym)
      show "Suc n = 0 \<or> Suc n = ?N \<or> absId (xs ! (Suc n - 1)) \<noteq> absId (xs ! Suc n)" by (rule left')
      show "\<forall>i<Suc n. done_at xs i (ns' ! i)" using dn' by blast
    qed
  qed
qed

lemma prop_inv_fold:
  "n \<le> length xs \<Longrightarrow> prop_inv xs n (fold propagate_step [0..<n] (0, xs))"
proof (induction n)
  case 0
  then show ?case by (auto simp: prop_inv_def)
next
  case (Suc n)
  then show ?case using prop_inv_step[of xs n] by simp
qed

lemma propagate_sign_length [simp]: "length (propagate_sign xs) = length xs"
  using prop_inv_fold[of "length xs" xs] by (simp add: prop_inv_def propagate_sign_def)

lemma propagate_sign_done: "i < length xs \<Longrightarrow> done_at xs i (propagate_sign xs ! i)"
  using prop_inv_fold[of "length xs" xs] by (simp add: prop_inv_def propagate_sign_def)


lemma done_at_strip: "done_at xs i y \<Longrightarrow> y\<lparr>sign := sign (xs ! i)\<rparr> = xs ! i"
  by (auto simp: done_at_def split: option.splits)

lemma done_at_absId: "done_at xs i y \<Longrightarrow> absId y = absId (xs ! i)"
  by (auto simp: done_at_def absId_def split: option.splits)

lemma maxrun_unique:
  assumes a: "maxrun xs lo hi" and b: "maxrun xs lo' hi'"
    and i: "lo \<le> i" "i < hi" "lo' \<le> i" "i < hi'"
  shows "lo' = lo \<and> hi' = hi"
proof -
  from a have ha: "\<And>k. lo \<le> k \<Longrightarrow> k < hi \<Longrightarrow> absId (xs ! k) = absId (xs ! lo)"
    and la: "lo = 0 \<or> absId (xs ! (lo - 1)) \<noteq> absId (xs ! lo)"
    and ra: "hi = length xs \<or> absId (xs ! hi) \<noteq> absId (xs ! lo)" and hia: "hi \<le> length xs"
    unfolding maxrun_def by blast+
  from b have hb: "\<And>k. lo' \<le> k \<Longrightarrow> k < hi' \<Longrightarrow> absId (xs ! k) = absId (xs ! lo')"
    and lb: "lo' = 0 \<or> absId (xs ! (lo' - 1)) \<noteq> absId (xs ! lo')"
    and rb: "hi' = length xs \<or> absId (xs ! hi') \<noteq> absId (xs ! lo')" and hib: "hi' \<le> length xs"
    unfolding maxrun_def by blast+
  have key: "absId (xs ! lo') = absId (xs ! lo)" using ha[of i] hb[of i] i by simp
  have "\<not> lo < lo'"
  proof
    assume c: "lo < lo'"
    then have "absId (xs ! (lo' - 1)) = absId (xs ! lo)" using ha[of "lo' - 1"] i by simp
    with lb c key show False by simp
  qed
  moreover have "\<not> lo' < lo"
  proof
    assume c: "lo' < lo"
    then have "absId (xs ! (lo - 1)) = absId (xs ! lo')" using hb[of "lo - 1"] i by simp
    with la c key show False by simp
  qed
  moreover have "\<not> hi < hi'"
  proof
    assume c: "hi < hi'"
    then have "absId (xs ! hi) = absId (xs ! lo')" using hb[of hi] i by simp
    with ra c key hib show False by simp
  qed
  moreover have "\<not> hi' < hi"
  proof
    assume c: "hi' < hi"
    then have "absId (xs ! hi') = absId (xs ! lo)" using ha[of hi'] i by simp
    with rb c key hia show False by simp
  qed
  ultimately show ?thesis by simp
qed

lemma maxrun_cong1:
  assumes len: "length ys = length xs"
    and key: "\<And>i. i < length xs \<Longrightarrow> absId (ys ! i) = absId (xs ! i)"
    and r: "maxrun xs lo hi"
  shows "maxrun ys lo hi"
proof -
  from r have lh: "lo < hi" "hi \<le> length xs"
    and h: "\<And>k. lo \<le> k \<Longrightarrow> k < hi \<Longrightarrow> absId (xs ! k) = absId (xs ! lo)"
    and l: "lo = 0 \<or> absId (xs ! (lo - 1)) \<noteq> absId (xs ! lo)"
    and u: "hi = length xs \<or> absId (xs ! hi) \<noteq> absId (xs ! lo)"
    unfolding maxrun_def by blast+
  have lol: "lo < length xs" using lh by linarith
  have klo: "absId (ys ! lo) = absId (xs ! lo)" by (rule key[OF lol])
  have 1: "absId (ys ! k) = absId (ys ! lo)" if "lo \<le> k \<and> k < hi" for k
  proof -
    have kl: "k < length xs" using that lh by linarith
    have "absId (ys ! k) = absId (xs ! k)" by (rule key[OF kl])
    also have "\<dots> = absId (xs ! lo)" using h[of k] that by blast
    also have "\<dots> = absId (ys ! lo)" by (rule klo[symmetric])
    finally show ?thesis .
  qed
  have 2: "lo = 0 \<or> absId (ys ! (lo - 1)) \<noteq> absId (ys ! lo)"
  proof (cases "lo = 0")
    case False
    then have "lo - 1 < length xs" using lol by linarith
    from key[OF this] have e: "absId (ys ! (lo - 1)) = absId (xs ! (lo - 1))" .
    from l False have "absId (xs ! (lo - 1)) \<noteq> absId (xs ! lo)" by blast
    then have "absId (ys ! (lo - 1)) \<noteq> absId (ys ! lo)" unfolding e klo .
    then show ?thesis ..
  next
    case True
    then show ?thesis ..
  qed
  have 3: "hi = length ys \<or> absId (ys ! hi) \<noteq> absId (ys ! lo)"
  proof (cases "hi = length xs")
    case False
    then have "hi < length xs" using lh by linarith
    from key[OF this] have e: "absId (ys ! hi) = absId (xs ! hi)" .
    from u False have "absId (xs ! hi) \<noteq> absId (xs ! lo)" by blast
    then have "absId (ys ! hi) \<noteq> absId (ys ! lo)" unfolding e klo .
    then show ?thesis ..
  next
    case True
    then have "hi = length ys" unfolding len .
    then show ?thesis ..
  qed
  have hl: "hi \<le> length ys" unfolding len by (rule lh(2))
  show ?thesis unfolding maxrun_def using lh(1) hl 1 2 3 by blast
qed

lemma maxrun_cong:
  assumes "length ys = length xs" and "\<And>i. i < length xs \<Longrightarrow> absId (ys ! i) = absId (xs ! i)"
  shows "maxrun ys lo hi = maxrun xs lo hi"
proof
  assume "maxrun ys lo hi"
  then show "maxrun xs lo hi"
    by (rule maxrun_cong1[rotated 2]) (simp_all add: assms)
next
  assume "maxrun xs lo hi"
  then show "maxrun ys lo hi"
    by (rule maxrun_cong1[rotated 2]) (simp_all add: assms)
qed

lemma propagate_sign_absId: "i < length xs \<Longrightarrow> absId (propagate_sign xs ! i) = absId (xs ! i)"
  by (rule done_at_absId[OF propagate_sign_done])

lemma propagate_sign_idem: "propagate_sign (propagate_sign xs) = propagate_sign xs"
proof (rule nth_equalityI)
  show "length (propagate_sign (propagate_sign xs)) = length (propagate_sign xs)" by simp
next
  fix i assume "i < length (propagate_sign (propagate_sign xs))"
  then have i: "i < length xs" by simp
  let ?ys = "propagate_sign xs"
  let ?zs = "propagate_sign ?ys"
  have "done_at ?ys i (?zs ! i)" using propagate_sign_done[of i ?ys] i by simp
  then obtain lo hi where run': "maxrun ?ys lo hi" and lh: "lo \<le> i" "i < hi"
    and z: "case find (\<lambda>k. sign (?ys ! k) > 0) [lo..<hi] of
           Some j \<Rightarrow> ?zs ! i = (?ys ! i)\<lparr>sign := sign (?ys ! j)\<rparr>
         | None \<Rightarrow> ?zs ! i = ?ys ! i"
    unfolding done_at_def by blast
  have "maxrun ?ys lo hi = maxrun xs lo hi"
    by (rule maxrun_cong) (simp_all add: propagate_sign_absId)
  with run' have run: "maxrun xs lo hi" by simp
  then have hi: "hi \<le> length xs" unfolding maxrun_def by simp
  have y: "case find (\<lambda>k. sign (xs ! k) > 0) [lo..<hi] of
           Some j \<Rightarrow> ?ys ! k = (xs ! k)\<lparr>sign := sign (xs ! j)\<rparr>
         | None \<Rightarrow> ?ys ! k = xs ! k" if k: "lo \<le> k" "k < hi" for k
  proof -
    have "done_at xs k (?ys ! k)" using propagate_sign_done[of k xs] k hi by simp
    then obtain lo' hi' where r: "maxrun xs lo' hi'" "lo' \<le> k" "k < hi'"
      and c: "case find (\<lambda>k. sign (xs ! k) > 0) [lo'..<hi'] of
           Some j \<Rightarrow> ?ys ! k = (xs ! k)\<lparr>sign := sign (xs ! j)\<rparr>
         | None \<Rightarrow> ?ys ! k = xs ! k"
      unfolding done_at_def by blast
    from maxrun_unique[OF run r(1) k r(2,3)] c show ?thesis by simp
  qed
  show "?zs ! i = ?ys ! i"
  proof (cases "find (\<lambda>k. sign (xs ! k) > 0) [lo..<hi]")
    case None
    then have eq: "\<And>k. lo \<le> k \<Longrightarrow> k < hi \<Longrightarrow> ?ys ! k = xs ! k" using y by simp
    have "find (\<lambda>k. sign (?ys ! k) > 0) [lo..<hi] = find (\<lambda>k. sign (xs ! k) > 0) [lo..<hi]"
      by (rule find_upt_cong) (simp add: eq)
    with None z show ?thesis by simp
  next
    case (Some j)
    then have pos: "0 < sign (xs ! j)" unfolding find_upt_Some by simp
    have eq: "\<And>k. lo \<le> k \<Longrightarrow> k < hi \<Longrightarrow> ?ys ! k = (xs ! k)\<lparr>sign := sign (xs ! j)\<rparr>"
      using y Some by simp
    have "find (\<lambda>k. sign (?ys ! k) > 0) [lo..<hi] = Some lo"
      unfolding find_upt_Some using lh eq[of lo] pos by simp
    with z have "?zs ! i = (?ys ! i)\<lparr>sign := sign (?ys ! lo)\<rparr>" by simp
    also have "\<dots> = ?ys ! i" using eq[of lo] eq[of i] lh by simp
    finally show ?thesis .
  qed
qed

lemma grouped_run:
  assumes g: "grouped xs" and r: "maxrun xs lo hi" and i: "lo \<le> i" "i < hi" and j: "j < length xs"
  shows "absId (xs ! j) = absId (xs ! i) \<longleftrightarrow> lo \<le> j \<and> j < hi"
proof -
  from r have h: "\<And>k. lo \<le> k \<Longrightarrow> k < hi \<Longrightarrow> absId (xs ! k) = absId (xs ! lo)"
    and l: "lo = 0 \<or> absId (xs ! (lo - 1)) \<noteq> absId (xs ! lo)"
    and u: "hi = length xs \<or> absId (xs ! hi) \<noteq> absId (xs ! lo)" and hl: "hi \<le> length xs"
    unfolding maxrun_def by blast+
  have ki: "absId (xs ! i) = absId (xs ! lo)" by (rule h[OF i])
  from g have G: "\<And>a b c. a < b \<Longrightarrow> b < c \<Longrightarrow> c < length xs \<Longrightarrow> absId (xs ! a) = absId (xs ! c) \<Longrightarrow>
     absId (xs ! b) = absId (xs ! a)"
    unfolding grouped_def by blast
  have il: "i < length xs" using i hl by linarith
  show ?thesis
  proof
    assume a: "lo \<le> j \<and> j < hi"
    then have "absId (xs ! j) = absId (xs ! lo)" using h[of j] by blast
    then show "absId (xs ! j) = absId (xs ! i)" unfolding ki .
  next
    assume e: "absId (xs ! j) = absId (xs ! i)"
    have "\<not> j < lo"
    proof
      assume c: "j < lo"
      then have lo0: "lo \<noteq> 0" by linarith
      with l have ne: "absId (xs ! (lo - 1)) \<noteq> absId (xs ! lo)" by blast
      show False
      proof (cases "j = lo - 1")
        case True
        with ne e ki show False by metis
      next
        case False
        then have "j < lo - 1" "lo - 1 < i" using c i by linarith+
        from G[OF this il e] have "absId (xs ! (lo - 1)) = absId (xs ! j)" .
        with ne e ki show False by metis
      qed
    qed
    moreover have "\<not> hi \<le> j"
    proof
      assume c: "hi \<le> j"
      then have "hi \<noteq> length xs" using j by linarith
      with u have ne: "absId (xs ! hi) \<noteq> absId (xs ! lo)" by blast
      show False
      proof (cases "j = hi")
        case True
        with ne e ki show False by metis
      next
        case False
        then have "i < hi" "hi < j" using c i by linarith+
        from G[OF this j e[symmetric]] have "absId (xs ! hi) = absId (xs ! i)" .
        with ne ki show False by metis
      qed
    qed
    ultimately show "lo \<le> j \<and> j < hi" by linarith
  qed
qed

lemma sorted_newId_grouped:
  assumes s: "sorted_wrt (\<lambda>a b. newId a \<le> newId b) xs"
    and k: "\<forall>a \<in> set xs. \<forall>b \<in> set xs. (newId a = newId b) = (absId a = absId b)"
  shows "grouped xs"
  unfolding grouped_def
proof (intro allI impI)
  fix i j l assume a: "i < j \<and> j < l \<and> l < length xs \<and> absId (xs ! i) = absId (xs ! l)"
  then have "newId (xs ! i) = newId (xs ! l)" using k by simp
  moreover have "newId (xs ! i) \<le> newId (xs ! j)" "newId (xs ! j) \<le> newId (xs ! l)"
    using s a by (simp_all add: sorted_wrt_iff_nth_less)
  ultimately have "newId (xs ! j) = newId (xs ! i)" by simp
  then show "absId (xs ! j) = absId (xs ! i)" using k a by simp
qed

lemma propagate_sign_group:
  assumes g: "grouped xs" and i: "i < length xs"
  shows "((\<exists>j<length xs. absId (xs ! j) = absId (xs ! i) \<and> 0 < sign (xs ! j)) \<longrightarrow>
      (\<exists>j<length xs. absId (xs ! j) = absId (xs ! i) \<and> 0 < sign (xs ! j) \<and>
         (\<forall>k<j. absId (xs ! k) = absId (xs ! i) \<longrightarrow> sign (xs ! k) \<le> 0) \<and>
         sign (propagate_sign xs ! i) = sign (xs ! j))) \<and>
    ((\<forall>j<length xs. absId (xs ! j) = absId (xs ! i) \<longrightarrow> sign (xs ! j) \<le> 0) \<longrightarrow>
       propagate_sign xs ! i = xs ! i)"
proof -
  from propagate_sign_done[OF i] obtain lo hi where r: "maxrun xs lo hi" and lh: "lo \<le> i" "i < hi"
    and c: "case find (\<lambda>k. sign (xs ! k) > 0) [lo..<hi] of
           Some j \<Rightarrow> propagate_sign xs ! i = (xs ! i)\<lparr>sign := sign (xs ! j)\<rparr>
         | None \<Rightarrow> propagate_sign xs ! i = xs ! i"
    unfolding done_at_def by blast
  from r have hl: "hi \<le> length xs" unfolding maxrun_def by simp
  note mem = grouped_run[OF g r lh]
  show ?thesis
  proof (cases "find (\<lambda>k. sign (xs ! k) > 0) [lo..<hi]")
    case None
    then have "\<And>k. lo \<le> k \<Longrightarrow> k < hi \<Longrightarrow> \<not> 0 < sign (xs ! k)" unfolding find_upt_None by blast
    then have no: "\<not> (\<exists>j<length xs. absId (xs ! j) = absId (xs ! i) \<and> 0 < sign (xs ! j))"
      using mem by blast
    from None c have "propagate_sign xs ! i = xs ! i" by simp
    with no show ?thesis by blast
  next
    case (Some j)
    then have j: "lo \<le> j" "j < hi" "0 < sign (xs ! j)" "\<And>k. lo \<le> k \<Longrightarrow> k < j \<Longrightarrow> \<not> 0 < sign (xs ! k)"
      unfolding find_upt_Some by blast+
    have jl: "j < length xs" using j hl by simp
    have 1: "absId (xs ! j) = absId (xs ! i)" using mem[OF jl] j by simp
    have 2: "\<forall>k<j. absId (xs ! k) = absId (xs ! i) \<longrightarrow> sign (xs ! k) \<le> 0"
    proof (intro allI impI)
      fix k assume k: "k < j" "absId (xs ! k) = absId (xs ! i)"
      then have "lo \<le> k" using mem[of k] jl by simp
      with j(4)[of k] k show "sign (xs ! k) \<le> 0" by simp
    qed
    have 3: "sign (propagate_sign xs ! i) = sign (xs ! j)" using c Some by simp
    have 4: "\<not> (\<forall>j<length xs. absId (xs ! j) = absId (xs ! i) \<longrightarrow> sign (xs ! j) \<le> 0)"
      using jl 1 j(3) by force
    from jl 1 j(3) 2 3 4 show ?thesis by blast
  qed
qed

lemma propagate_sign_only_sign:
  "i < length xs \<Longrightarrow> (propagate_sign xs ! i)\<lparr>sign := sign (xs ! i)\<rparr> = xs ! i"
  by (rule done_at_strip[OF propagate_sign_done])


text \<open>
  Claim C4, as the code has it. The pass keeps the length and changes nothing but signs.
  It works run by run, a run being a maximal stretch of neighbouring records that share
  one \<open>abs(baseId)\<close>: if a member of the run of the record at index \<open>i\<close> carried a
  positive sign, the record carries the sign of the first such member after the pass, and
  otherwise the record is unchanged (\<open>done_at\<close>). When the array is grouped, that is when
  the records of every \<open>abs(baseId)\<close> are neighbours, the runs are the groups: if a member
  of the group of the record carried a positive sign, the record carries the sign of the
  first such member of the group, hence all members of the group carry the same positive
  sign; if no member did, the record is unchanged. Running the pass on its own output
  changes nothing, grouped or not.
\<close>

theorem C4_sign_propagation:
  assumes "i < length xs"
  shows "length (propagate_sign xs) = length xs \<and>
    (propagate_sign xs ! i)\<lparr>sign := sign (xs ! i)\<rparr> = xs ! i \<and>
    done_at xs i (propagate_sign xs ! i) \<and>
    (grouped xs \<longrightarrow>
      ((\<exists>j<length xs. absId (xs ! j) = absId (xs ! i) \<and> 0 < sign (xs ! j)) \<longrightarrow>
        (\<exists>j<length xs. absId (xs ! j) = absId (xs ! i) \<and> 0 < sign (xs ! j) \<and>
           (\<forall>k<j. absId (xs ! k) = absId (xs ! i) \<longrightarrow> sign (xs ! k) \<le> 0) \<and>
           sign (propagate_sign xs ! i) = sign (xs ! j))) \<and>
      ((\<forall>j<length xs. absId (xs ! j) = absId (xs ! i) \<longrightarrow> sign (xs ! j) \<le> 0) \<longrightarrow>
         propagate_sign xs ! i = xs ! i)) \<and>
    propagate_sign (propagate_sign xs) = propagate_sign xs"
proof -
  have g: "grouped xs \<longrightarrow>
      ((\<exists>j<length xs. absId (xs ! j) = absId (xs ! i) \<and> 0 < sign (xs ! j)) \<longrightarrow>
        (\<exists>j<length xs. absId (xs ! j) = absId (xs ! i) \<and> 0 < sign (xs ! j) \<and>
           (\<forall>k<j. absId (xs ! k) = absId (xs ! i) \<longrightarrow> sign (xs ! k) \<le> 0) \<and>
           sign (propagate_sign xs ! i) = sign (xs ! j))) \<and>
      ((\<forall>j<length xs. absId (xs ! j) = absId (xs ! i) \<longrightarrow> sign (xs ! j) \<le> 0) \<longrightarrow>
         propagate_sign xs ! i = xs ! i)"
    using propagate_sign_group[OF _ assms] by blast
  show ?thesis
    using propagate_sign_length[of xs] propagate_sign_only_sign[OF assms]
      propagate_sign_done[OF assms] g propagate_sign_idem[of xs]
    by (intro conjI)
qed

text \<open>Two replicas of one node, the second one positive, as a sort by \<open>newId\<close> may leave them.\<close>

definition two_replicas :: "parallelNode_t list" where
  "two_replicas =
     [\<lparr>localId = 0, baseId = - 5, rank = 1, newId = 0, sign = - 2\<rparr>,
      \<lparr>localId = 1, baseId = 5, rank = 0, newId = 0, sign = 2\<rparr>]"

theorem C4_sign_propagation_witness:
  "grouped two_replicas \<and> (0::nat) < length two_replicas \<and>
   sign (two_replicas ! 0) = - 2 \<and> sign (two_replicas ! 1) = 2 \<and>
   absId (two_replicas ! 1) = absId (two_replicas ! 0) \<and>
   sign (propagate_sign two_replicas ! 0) = 2 \<and>
   propagate_sign (propagate_sign two_replicas) = propagate_sign two_replicas"
proof -
  have g: "grouped two_replicas"
    by (rule sorted_newId_grouped) (simp_all add: two_replicas_def absId_def)
  have l: "(0::nat) < length two_replicas" by (simp add: two_replicas_def)
  have f: "sign (two_replicas ! 0) = - 2" "sign (two_replicas ! 1) = 2"
    "absId (two_replicas ! 1) = absId (two_replicas ! 0)"
    by (simp_all add: two_replicas_def absId_def)
  have ex: "\<exists>j<length two_replicas. absId (two_replicas ! j) = absId (two_replicas ! 0) \<and>
      0 < sign (two_replicas ! j)"
    by (rule exI[of _ 1]) (simp add: two_replicas_def absId_def)
  from C4_sign_propagation[OF l] g ex
  obtain j where j: "j < length two_replicas" "0 < sign (two_replicas ! j)"
    "sign (propagate_sign two_replicas ! 0) = sign (two_replicas ! j)"
    and idem: "propagate_sign (propagate_sign two_replicas) = propagate_sign two_replicas"
    by blast
  from j(1) have "j = 0 \<or> j = 1" by (auto simp: two_replicas_def)
  with j(2) f have "j = 1" by auto
  with j(3) f have "sign (propagate_sign two_replicas ! 0) = 2" by simp
  with g l f idem show ?thesis by simp
qed

section \<open>Start and Finish\<close>

subsection \<open>The collaborators\<close>

text \<open>
  Modelled from the spec: the enumerations \<^verbatim>\<open>Type\<close> and \<^verbatim>\<open>Op\<close> and the function
  \<^verbatim>\<open>Sizeof\<close> are declared in \<^verbatim>\<open>ogs.hpp\<close>, which is not part of the sources at hand. The
  spec names 32/64-bit integers and floats as element types and add, min, max, multiply
  as operators.
\<close>

datatype Type = Float | Double | Int32 | Int64

datatype Op = Add | Mul | MaxOp | MinOp

definition Sizeof :: "Type \<Rightarrow> nat" where
  "Sizeof ty = (case ty of Float \<Rightarrow> 4 | Double \<Rightarrow> 8 | Int32 \<Rightarrow> 4 | Int64 \<Rightarrow> 8)"

text \<open>
  Reading and writing a range of a buffer. An access that leaves the buffer has no
  defined result in the source (the memory layer raises, or the behaviour is undefined):
  the model stops with \<open>None\<close>.
\<close>

definition read_at :: "'b list \<Rightarrow> nat \<Rightarrow> nat \<Rightarrow> 'b list option" where
  "read_at b off len = (if off + len \<le> length b then Some (take len (drop off b)) else None)"

definition write_at :: "'b list \<Rightarrow> nat \<Rightarrow> 'b list \<Rightarrow> 'b list option" where
  "write_at b off d =
     (if off + length d \<le> length b then Some (take off b @ d @ drop (off + length d) b) else None)"

text \<open>
  Modelled from the spec: \<^verbatim>\<open>copyTo\<close> and \<^verbatim>\<open>copyFrom\<close> of the memory layer (an asynchronous copy
  keyed by execution context, with a completion wait), called with a byte count and offset
  0. The copy is taken at the point of the call; the streams it is queued on are not
  modelled.
\<close>

definition copy_bytes :: "nat \<Rightarrow> 'b list \<Rightarrow> 'b list \<Rightarrow> 'b list option" where
  "copy_bytes n src dst = do { d \<leftarrow> read_at src 0 n; write_at dst 0 d }"

text \<open>
  A row count times the row size, as \<^verbatim>\<open>N*Nbytes\<close> computes it in \<^verbatim>\<open>size_t\<close>: a negative
  count wraps to a size beyond every buffer, so the access that follows fails.
\<close>

definition rows_bytes :: "int \<Rightarrow> nat \<Rightarrow> nat option" where
  "rows_bytes N Nbytes = (if N < 0 then None else Some (nat N * Nbytes))"

text \<open>
  Modelled from the spec: \<^verbatim>\<open>extract\<close> (host loop) and \<^verbatim>\<open>extractKernel\<close> (device kernel)
  of \<^verbatim>\<open>ogs/ogsUtils.hpp\<close>: the extraction of a level's designated entries from the current
  halo buffer into the send buffer, via the precomputed index list of the level. Row \<open>n\<close>
  of the send buffer becomes row \<open>ids[n]\<close> of the halo buffer. (\<open>extract\<close> is a command
  name of Isabelle, hence \<open>extract_rows\<close>.)
\<close>

definition extract_rows :: "int \<Rightarrow> nat \<Rightarrow> int list \<Rightarrow> 'b list \<Rightarrow> 'b list \<Rightarrow> 'b list option" where
  "extract_rows N Nbytes ids q g =
     fold (\<lambda>n acc. do {
             g' \<leftarrow> acc;
             off \<leftarrow> (if n < length ids then rows_bytes (ids ! n) Nbytes else None);
             row \<leftarrow> read_at q off Nbytes;
             write_at g' (n * Nbytes) row })
          [0..<nat N] (Some g)"

text \<open>
  Modelled from the spec: \<^verbatim>\<open>ogsOperator_t::Gather\<close> with the \<^verbatim>\<open>Trans\<close> flag, the sparse
  row-grouped structure mapping multiple source positions into a compact destination row
  under an associative operator. Row \<open>n\<close> of the destination becomes the reduction of
  the source rows \<open>colIdsT[rowStartsT[n]] .. colIdsT[rowStartsT[n+1]-1]\<close>. The reduction
  of a list of rows, for the given width, element type and operator, is the parameter
  \<open>red\<close>.
\<close>

definition gather_row :: "ogsOperator_t \<Rightarrow> nat \<Rightarrow> int list option" where
  "gather_row A n =
     (if Suc n < length (rowStartsT A) \<and> 0 \<le> rowStartsT A ! n \<and>
         nat (rowStartsT A ! Suc n) \<le> length (colIdsT A)
      then Some (map (\<lambda>j. colIdsT A ! j) [nat (rowStartsT A ! n)..<nat (rowStartsT A ! Suc n)])
      else None)"

definition Gather ::
  "('b list list \<Rightarrow> 'b list) \<Rightarrow> ogsOperator_t \<Rightarrow> nat \<Rightarrow> 'b list \<Rightarrow> 'b list \<Rightarrow> 'b list option" where
  "Gather red A Nbytes src dst =
     fold (\<lambda>n acc. do {
             d \<leftarrow> acc;
             cols \<leftarrow> gather_row A n;
             rows \<leftarrow> those (map (\<lambda>c. do { off \<leftarrow> rows_bytes c Nbytes; read_at src off Nbytes }) cols);
             write_at d (n * Nbytes) (red rows) })
          [0..<nat (NrowsT A)] (Some dst)"

subsection \<open>The buffers behind the pointers\<close>

definition get_buf :: "nat \<Rightarrow> 'b ogsCrystalRouter_t \<Rightarrow> 'b list" where
  "get_buf i s = (if i = 0 then buf0 s else buf1 s)"

definition set_buf :: "nat \<Rightarrow> 'b list \<Rightarrow> 'b ogsCrystalRouter_t \<Rightarrow> 'b ogsCrystalRouter_t" where
  "set_buf i v s = (if i = 0 then s\<lparr>buf0 := v\<rparr> else s\<lparr>buf1 := v\<rparr>)"

definition get_o_buf :: "nat \<Rightarrow> 'b ogsCrystalRouter_t \<Rightarrow> 'b list" where
  "get_o_buf i s = (if i = 0 then o_buf0 s else o_buf1 s)"

definition set_o_buf :: "nat \<Rightarrow> 'b list \<Rightarrow> 'b ogsCrystalRouter_t \<Rightarrow> 'b ogsCrystalRouter_t" where
  "set_o_buf i v s = (if i = 0 then s\<lparr>o_buf0 := v\<rparr> else s\<lparr>o_buf1 := v\<rparr>)"

subsection \<open>Start (lines 35--58)\<close>

text \<open>The argument \<^verbatim>\<open>trans\<close> is written \<open>tr\<close>. The stream switches are not modelled.\<close>

definition Start ::
  "nat \<Rightarrow> Type \<Rightarrow> Op \<Rightarrow> Transpose \<Rightarrow> bool \<Rightarrow> 'b ogsCrystalRouter_t \<Rightarrow> 'b ogsCrystalRouter_t option" where
  "Start k ty op tr host s =
     (let N = (if tr = NoTrans then NhaloP s else Nhalo s) in
      if N \<noteq> 0 then
        (if \<not> gpu_aware s \<and> \<not> host then
           (let Nbytes = k * Sizeof ty in do {
              n \<leftarrow> rows_bytes N Nbytes;
              h \<leftarrow> copy_bytes n (get_o_buf (o_haloBuf s) s) (get_buf (haloBuf s) s);
              Some (set_buf (haloBuf s) h s) })
         else Some s)
      else Some s)"

subsection \<open>Finish (lines 61--156)\<close>

text \<open>
  One level of the loop, as one process sees it, in two halves. The first half assembles
  the send buffer and hands the message to the transport (lines 111--126); the second
  half is entered when \<^verbatim>\<open>MPI_Waitall\<close> returns, with the payloads \<open>m0\<close> (from
  \<^verbatim>\<open>partner\<close>) and \<open>m1\<close> (from \<^verbatim>\<open>rank-1\<close>) that the transport delivered into the
  receives posted in lines 101--109, rotates the buffers and gathers (lines 129--143).
  A receive takes a message no longer than the posted count. \<open>Nbytes\<close> is
  \<^verbatim>\<open>k*Sizeof(type)\<close>. The send pointer and the receive pointer address the device buffers
  when \<^verbatim>\<open>gpu_aware && !host\<close> and the host buffers otherwise; extraction and gather run
  on the device buffers when \<^verbatim>\<open>gpu_aware\<close>, as the source has it.
\<close>

definition level_post ::
  "bool \<Rightarrow> nat \<Rightarrow> crLevel \<Rightarrow> 'b ogsCrystalRouter_t \<Rightarrow> ('b ogsCrystalRouter_t \<times> 'b list) option" where
  "level_post host Nbytes lv s = do {
     s1 \<leftarrow> (if gpu_aware s then
              (if Nsend lv \<noteq> 0 then do {
                 g \<leftarrow> extract_rows (Nsend lv) Nbytes (sendIds lv)
                        (get_o_buf (o_haloBuf s) s) (o_sendBuf s);
                 Some (s\<lparr>o_sendBuf := g\<rparr>) }
               else Some s)
            else do {
              g \<leftarrow> extract_rows (Nsend lv) Nbytes (sendIds lv) (get_buf (haloBuf s) s) (sendBuf s);
              Some (s\<lparr>sendBuf := g\<rparr>) });
     n \<leftarrow> rows_bytes (Nsend lv) Nbytes;
     msg \<leftarrow> read_at (if gpu_aware s \<and> \<not> host then o_sendBuf s1 else sendBuf s1) 0 n;
     Some (s1, msg) }"

definition deliver :: "'b list \<Rightarrow> nat \<Rightarrow> nat \<Rightarrow> 'b list \<Rightarrow> 'b list option" where
  "deliver b off cnt m = (if length m \<le> cnt then write_at b off m else None)"

definition rotate :: "'b ogsCrystalRouter_t \<Rightarrow> 'b ogsCrystalRouter_t" where
  "rotate s =
     s\<lparr>o_recvBuf := (buf_id s + 0) mod 2,
       o_haloBuf := (buf_id s + 1) mod 2,
       recvBuf := (buf_id s + 0) mod 2,
       haloBuf := (buf_id s + 1) mod 2,
       buf_id := (buf_id s + 1) mod 2\<rparr>"

definition level_complete ::
  "('b list list \<Rightarrow> 'b list) \<Rightarrow> bool \<Rightarrow> nat \<Rightarrow> crLevel \<Rightarrow> 'b list \<Rightarrow> 'b list \<Rightarrow>
   'b ogsCrystalRouter_t \<Rightarrow> 'b ogsCrystalRouter_t option" where
  "level_complete red host Nbytes lv m0 m1 s = do {
     let dev = (gpu_aware s \<and> \<not> host);
     let rb = (if dev then get_o_buf (o_haloBuf s) s else get_buf (haloBuf s) s);
     rb1 \<leftarrow> (if Nmsg lv > 0 then do {
                off \<leftarrow> rows_bytes (recvOffset lv) Nbytes;
                n0 \<leftarrow> rows_bytes (Nrecv0 lv) Nbytes;
                deliver rb off n0 m0 }
              else Some rb);
     rb2 \<leftarrow> (if Nmsg lv = 2 then do {
                off \<leftarrow> rows_bytes (recvOffset lv) Nbytes;
                n0 \<leftarrow> rows_bytes (Nrecv0 lv) Nbytes;
                n1 \<leftarrow> rows_bytes (Nrecv1 lv) Nbytes;
                deliver rb1 (off + n0) n1 m1 }
              else Some rb1);
     let s1 = (if dev then set_o_buf (o_haloBuf s) rb2 s else set_buf (haloBuf s) rb2 s);
     let s2 = rotate s1;
     if gpu_aware s2 then do {
       h \<leftarrow> Gather red (gather lv) Nbytes (get_o_buf (o_recvBuf s2) s2) (get_o_buf (o_haloBuf s2) s2);
       Some (set_o_buf (o_haloBuf s2) h s2) }
     else do {
       h \<leftarrow> Gather red (gather lv) Nbytes (get_buf (recvBuf s2) s2) (get_buf (haloBuf s2) s2);
       Some (set_buf (haloBuf s2) h s2) } }"

text \<open>
  The loop over the levels. \<open>inbox l q\<close> is the payload that the process of rank \<open>q\<close>
  sent to this one at level \<open>l\<close>; the result carries the messages this process sent,
  each with its destination. \<open>r\<close> is the rank of this process.
\<close>

definition run_levels ::
  "('b list list \<Rightarrow> 'b list) \<Rightarrow> (nat \<Rightarrow> int \<Rightarrow> 'b list) \<Rightarrow> int \<Rightarrow> bool \<Rightarrow> nat \<Rightarrow> crLevel list \<Rightarrow>
   nat \<Rightarrow> 'b ogsCrystalRouter_t \<Rightarrow> ('b ogsCrystalRouter_t \<times> (int \<times> 'b list) list) option" where
  "run_levels red inbox r host Nbytes levels n s =
     fold (\<lambda>l acc. do {
             (s0, out) \<leftarrow> acc;
             lv \<leftarrow> (if l < length levels then Some (levels ! l) else None);
             (s1, msg) \<leftarrow> level_post host Nbytes lv s0;
             s2 \<leftarrow> level_complete red host Nbytes lv (inbox l (partner lv)) (inbox l (r - 1)) s1;
             Some (s2, out @ [(partner lv, msg)]) })
          [0..<n] (Some (s, []))"

text \<open>
  Finish. \<open>red k ty op\<close> is the reduction of a list of rows that the gather engine
  applies for this width, element type and operator.
\<close>

definition Finish ::
  "(nat \<Rightarrow> Type \<Rightarrow> Op \<Rightarrow> 'b list list \<Rightarrow> 'b list) \<Rightarrow> (nat \<Rightarrow> int \<Rightarrow> 'b list) \<Rightarrow> int \<Rightarrow>
   nat \<Rightarrow> Type \<Rightarrow> Op \<Rightarrow> Transpose \<Rightarrow> bool \<Rightarrow> 'b ogsCrystalRouter_t \<Rightarrow>
   ('b ogsCrystalRouter_t \<times> (int \<times> 'b list) list) option" where
  "Finish red inbox r k ty op tr host s =
     (let Nbytes = k * Sizeof ty;
          levels = (if tr = NoTrans then levelsN s else levelsT s)
      in do {
        (s1, out) \<leftarrow> run_levels (red k ty op) inbox r host Nbytes levels (Nlevels s) s;
        let N = (if tr = Trans then NhaloP s1 else Nhalo s1);
        s2 \<leftarrow> (if N \<noteq> 0 then
                 (if \<not> gpu_aware s1 \<and> \<not> host then do {
                    n \<leftarrow> rows_bytes N Nbytes;
                    d \<leftarrow> copy_bytes n (get_buf (haloBuf s1) s1) (get_o_buf (o_haloBuf s1) s1);
                    Some (set_o_buf (o_haloBuf s1) d s1) }
                  else Some s1)
               else Some s1);
        Some (s2, out) })"

subsection \<open>Facts about Start and Finish\<close>

lemma read_at_Some: "read_at b off len = Some d \<longleftrightarrow> off + len \<le> length b \<and> d = take len (drop off b)"
  by (auto simp: read_at_def)

lemma write_at_Some:
  "write_at b off d = Some b' \<longleftrightarrow>
     off + length d \<le> length b \<and> b' = take off b @ d @ drop (off + length d) b"
  by (auto simp: write_at_def)

lemma copy_bytes_Some:
  "copy_bytes n src dst = Some d \<longleftrightarrow> n \<le> length src \<and> n \<le> length dst \<and> d = take n src @ drop n dst"
  by (auto simp: copy_bytes_def read_at_def write_at_def min_def split: bind_splits if_splits)

lemma copy_bytes_length: "copy_bytes n src dst = Some d \<Longrightarrow> length d = length dst"
  by (auto simp: copy_bytes_Some)

lemma rows_bytes_Some: "rows_bytes N Nbytes = Some n \<longleftrightarrow> 0 \<le> N \<and> n = nat N * Nbytes"
  by (auto simp: rows_bytes_def)

lemma run_levels_0 [simp]: "run_levels red inbox r host Nbytes levels 0 s = Some (s, [])"
  by (simp add: run_levels_def)

text \<open>
  The two staging copies, named for the statements below: \<open>stage_rows N\<close> copies the
  first \<open>N\<close> rows of the device halo buffer to the host halo buffer, \<open>unstage_rows N\<close>
  copies the first \<open>N\<close> rows back; both do nothing when \<open>N = 0\<close>, when the transport
  is gpu-aware or when the \<open>host\<close> flag is set.
\<close>

definition stage_rows :: "int \<Rightarrow> nat \<Rightarrow> bool \<Rightarrow> 'b ogsCrystalRouter_t \<Rightarrow> 'b ogsCrystalRouter_t option" where
  "stage_rows N Nbytes host s =
     (if N \<noteq> 0 \<and> \<not> gpu_aware s \<and> \<not> host then do {
        n \<leftarrow> rows_bytes N Nbytes;
        h \<leftarrow> copy_bytes n (get_o_buf (o_haloBuf s) s) (get_buf (haloBuf s) s);
        Some (set_buf (haloBuf s) h s) }
      else Some s)"

definition unstage_rows :: "int \<Rightarrow> nat \<Rightarrow> bool \<Rightarrow> 'b ogsCrystalRouter_t \<Rightarrow> 'b ogsCrystalRouter_t option" where
  "unstage_rows N Nbytes host s =
     (if N \<noteq> 0 \<and> \<not> gpu_aware s \<and> \<not> host then do {
        n \<leftarrow> rows_bytes N Nbytes;
        d \<leftarrow> copy_bytes n (get_buf (haloBuf s) s) (get_o_buf (o_haloBuf s) s);
        Some (set_o_buf (o_haloBuf s) d s) }
      else Some s)"

lemma Start_stage:
  "Start k ty op tr host s =
     stage_rows (case tr of NoTrans \<Rightarrow> NhaloP s | Trans \<Rightarrow> Nhalo s) (k * Sizeof ty) host s"
  by (cases tr) (simp_all add: Start_def stage_rows_def Let_def)

lemma Finish_unstage:
  "Finish red inbox r k ty op tr host s =
     do { (s1, out) \<leftarrow> run_levels (red k ty op) inbox r host (k * Sizeof ty)
                          (case tr of NoTrans \<Rightarrow> levelsN s | Trans \<Rightarrow> levelsT s) (Nlevels s) s;
          s2 \<leftarrow> unstage_rows (case tr of NoTrans \<Rightarrow> Nhalo s1 | Trans \<Rightarrow> NhaloP s1) (k * Sizeof ty) host s1;
          Some (s2, out) }"
  by (cases tr; simp add: Finish_def unstage_rows_def Let_def; intro Option.bind_cong refl; clarsimp)


lemma set_buf_fields [simp]:
  "NhaloP (set_buf i v s) = NhaloP s" "Nhalo (set_buf i v s) = Nhalo s"
  "gpu_aware (set_buf i v s) = gpu_aware s" "Nlevels (set_buf i v s) = Nlevels s"
  "levelsN (set_buf i v s) = levelsN s" "levelsT (set_buf i v s) = levelsT s"
  "NhaloP (set_o_buf i v s) = NhaloP s" "Nhalo (set_o_buf i v s) = Nhalo s"
  "gpu_aware (set_o_buf i v s) = gpu_aware s" "Nlevels (set_o_buf i v s) = Nlevels s"
  "levelsN (set_o_buf i v s) = levelsN s" "levelsT (set_o_buf i v s) = levelsT s"
  "NhaloP (rotate s) = NhaloP s" "Nhalo (rotate s) = Nhalo s"
  "gpu_aware (rotate s) = gpu_aware s" "Nlevels (rotate s) = Nlevels s"
  "levelsN (rotate s) = levelsN s" "levelsT (rotate s) = levelsT s"
  by (simp_all add: set_buf_def set_o_buf_def rotate_def)

text \<open>What the level loop never writes.\<close>

definition same_plan :: "'b ogsCrystalRouter_t \<Rightarrow> 'b ogsCrystalRouter_t \<Rightarrow> bool" where
  "same_plan s t \<longleftrightarrow>
     NhaloP t = NhaloP s \<and> Nhalo t = Nhalo s \<and> gpu_aware t = gpu_aware s \<and>
     Nlevels t = Nlevels s \<and> levelsN t = levelsN s \<and> levelsT t = levelsT s"

lemma same_plan_refl [simp]: "same_plan s s"
  by (simp add: same_plan_def)

lemma same_plan_trans: "same_plan s t \<Longrightarrow> same_plan t u \<Longrightarrow> same_plan s u"
  by (simp add: same_plan_def)

lemma level_post_plan:
  assumes "level_post host Nbytes lv s = Some (s1, m)"
  shows "same_plan s s1" and "length m = nat (Nsend lv) * Nbytes"
proof -
  from assms obtain n where n: "rows_bytes (Nsend lv) Nbytes = Some n"
    and m: "read_at (if gpu_aware s \<and> \<not> host then o_sendBuf s1 else sendBuf s1) 0 n = Some m"
    and s1: "s1 = s \<or> (\<exists>g. s1 = s\<lparr>o_sendBuf := g\<rparr>) \<or> (\<exists>g. s1 = s\<lparr>sendBuf := g\<rparr>)"
    unfolding level_post_def by (auto split: bind_splits if_splits)
  from s1 show "same_plan s s1" by (auto simp: same_plan_def)
  from n m show "length m = nat (Nsend lv) * Nbytes"
    by (auto simp: rows_bytes_Some read_at_Some)
qed

lemma level_complete_plan:
  assumes "level_complete red host Nbytes lv m0 m1 s = Some s'"
  shows "same_plan s s'"
proof -
  from assms obtain i v j w where "s' = set_o_buf i v (rotate (set_o_buf j w s)) \<or>
      s' = set_o_buf i v (rotate (set_buf j w s)) \<or>
      s' = set_buf i v (rotate (set_buf j w s)) \<or> s' = set_buf i v (rotate (set_o_buf j w s))"
    unfolding level_complete_def Let_def by (auto split: bind_splits if_splits)
  then show ?thesis by (auto simp: same_plan_def)
qed

lemma run_levels_Suc:
  "run_levels red inbox r host Nbytes levels (Suc n) s =
     do { (s0, out) \<leftarrow> run_levels red inbox r host Nbytes levels n s;
          lv \<leftarrow> (if n < length levels then Some (levels ! n) else None);
          (s1, msg) \<leftarrow> level_post host Nbytes lv s0;
          s2 \<leftarrow> level_complete red host Nbytes lv (inbox n (partner lv)) (inbox n (r - 1)) s1;
          Some (s2, out @ [(partner lv, msg)]) }"
  by (simp add: run_levels_def)

lemma run_levels_plan:
  "run_levels red inbox r host Nbytes levels n s = Some (s', out) \<Longrightarrow>
   same_plan s s' \<and> n \<le> length levels \<and>
   map fst out = map partner (take n levels) \<and>
   map (\<lambda>m. length (snd m)) out = map (\<lambda>lv. nat (Nsend lv) * Nbytes) (take n levels)"
proof (induction n arbitrary: s' out)
  case 0
  then show ?case by simp
next
  case (Suc n)
  from Suc.prems obtain s0 out0 s1 msg where
    a: "run_levels red inbox r host Nbytes levels n s = Some (s0, out0)"
    and n: "n < length levels"
    and b: "level_post host Nbytes (levels ! n) s0 = Some (s1, msg)"
    and c: "level_complete red host Nbytes (levels ! n) (inbox n (partner (levels ! n))) (inbox n (r - 1)) s1 = Some s'"
    and out: "out = out0 @ [(partner (levels ! n), msg)]"
    unfolding run_levels_Suc by (auto split: bind_splits if_splits)
  note ih = Suc.IH[OF a]
  have "same_plan s s'"
    using ih level_post_plan(1)[OF b] level_complete_plan[OF c] same_plan_trans by blast
  moreover have "map fst out = map partner (take (Suc n) levels)"
    using ih n out by (simp add: take_Suc_conv_app_nth)
  moreover have "map (\<lambda>m. length (snd m)) out = map (\<lambda>lv. nat (Nsend lv) * Nbytes) (take (Suc n) levels)"
    using ih n out level_post_plan(2)[OF b] by (simp add: take_Suc_conv_app_nth)
  ultimately show ?case using n by simp
qed

lemma stage_rows_skip: "gpu_aware s \<or> host \<or> N = 0 \<Longrightarrow> stage_rows N Nbytes host s = Some s"
  by (auto simp: stage_rows_def)

lemma unstage_rows_skip: "gpu_aware s \<or> host \<or> N = 0 \<Longrightarrow> unstage_rows N Nbytes host s = Some s"
  by (auto simp: unstage_rows_def)

lemma stage_rows_copy:
  assumes "\<not> gpu_aware s" "\<not> host" "N \<noteq> 0" "stage_rows N Nbytes host s = Some s'"
  shows "0 < N \<and> nat N * Nbytes \<le> length (get_o_buf (o_haloBuf s) s) \<and>
     nat N * Nbytes \<le> length (get_buf (haloBuf s) s) \<and>
     s' = set_buf (haloBuf s)
            (take (nat N * Nbytes) (get_o_buf (o_haloBuf s) s) @ drop (nat N * Nbytes) (get_buf (haloBuf s) s)) s"
  using assms by (auto simp: stage_rows_def rows_bytes_Some copy_bytes_Some split: bind_splits)

lemma unstage_rows_copy:
  assumes "\<not> gpu_aware s" "\<not> host" "N \<noteq> 0" "unstage_rows N Nbytes host s = Some s'"
  shows "0 < N \<and> nat N * Nbytes \<le> length (get_o_buf (o_haloBuf s) s) \<and>
     nat N * Nbytes \<le> length (get_buf (haloBuf s) s) \<and>
     s' = set_o_buf (o_haloBuf s)
            (take (nat N * Nbytes) (get_buf (haloBuf s) s) @ drop (nat N * Nbytes) (get_o_buf (o_haloBuf s) s)) s"
  using assms by (auto simp: unstage_rows_def rows_bytes_Some copy_bytes_Some split: bind_splits)

lemma Finish_cases:
  "Finish red inbox r k ty op tr host s =
     do { (s1, out) \<leftarrow> run_levels (red k ty op) inbox r host (k * Sizeof ty)
                          (case tr of NoTrans \<Rightarrow> levelsN s | Trans \<Rightarrow> levelsT s) (Nlevels s) s;
          s2 \<leftarrow> unstage_rows (case tr of NoTrans \<Rightarrow> Nhalo s | Trans \<Rightarrow> NhaloP s) (k * Sizeof ty) host s1;
          Some (s2, out) }"
  unfolding Finish_unstage
  by (intro Option.bind_cong refl) (auto dest!: run_levels_plan simp: same_plan_def split: Transpose.splits)



text \<open>
  Claim C6. Start stages \<open>NhaloP\<close> rows in the forward direction and \<open>Nhalo\<close> rows in
  the transposed one; Finish runs the loop over \<open>levelsN\<close> in the forward direction and
  over \<open>levelsT\<close> in the transposed one, and copies back \<open>Nhalo\<close> rows (forward) or
  \<open>NhaloP\<close> rows (transposed). The staging copies move exactly that many rows, and the
  loop sends, level by level, to the partner of the chosen schedule the number of rows
  that schedule records.
\<close>

theorem C6_direction_selects:
  "Start k ty op NoTrans host s = stage_rows (NhaloP s) (k * Sizeof ty) host s \<and>
   Start k ty op Trans host s = stage_rows (Nhalo s) (k * Sizeof ty) host s \<and>
   Finish red inbox r k ty op NoTrans host s =
     do { (s1, out) \<leftarrow> run_levels (red k ty op) inbox r host (k * Sizeof ty) (levelsN s) (Nlevels s) s;
          s2 \<leftarrow> unstage_rows (Nhalo s) (k * Sizeof ty) host s1;
          Some (s2, out) } \<and>
   Finish red inbox r k ty op Trans host s =
     do { (s1, out) \<leftarrow> run_levels (red k ty op) inbox r host (k * Sizeof ty) (levelsT s) (Nlevels s) s;
          s2 \<leftarrow> unstage_rows (NhaloP s) (k * Sizeof ty) host s1;
          Some (s2, out) } \<and>
   (\<not> gpu_aware s \<and> \<not> host \<and> N \<noteq> 0 \<and> stage_rows N Nb host s = Some s' \<longrightarrow>
      0 < N \<and>
      s' = set_buf (haloBuf s)
             (take (nat N * Nb) (get_o_buf (o_haloBuf s) s) @ drop (nat N * Nb) (get_buf (haloBuf s) s)) s) \<and>
   (\<not> gpu_aware s \<and> \<not> host \<and> N \<noteq> 0 \<and> unstage_rows N Nb host s = Some s'' \<longrightarrow>
      0 < N \<and>
      s'' = set_o_buf (o_haloBuf s)
              (take (nat N * Nb) (get_buf (haloBuf s) s) @ drop (nat N * Nb) (get_o_buf (o_haloBuf s) s)) s) \<and>
   (gpu_aware s \<or> host \<or> N = 0 \<longrightarrow>
      stage_rows N Nb host s = Some s \<and> unstage_rows N Nb host s = Some s) \<and>
   (run_levels rd inbox r host Nb levels n s = Some (t, out) \<longrightarrow>
      map fst out = map partner (take n levels) \<and>
      map (\<lambda>m. length (snd m)) out = map (\<lambda>lv. nat (Nsend lv) * Nb) (take n levels))"
proof -
  have 1: "Start k ty op NoTrans host s = stage_rows (NhaloP s) (k * Sizeof ty) host s"
    and 2: "Start k ty op Trans host s = stage_rows (Nhalo s) (k * Sizeof ty) host s"
    by (simp_all add: Start_stage)
  have 3: "Finish red inbox r k ty op NoTrans host s =
     do { (s1, out) \<leftarrow> run_levels (red k ty op) inbox r host (k * Sizeof ty) (levelsN s) (Nlevels s) s;
          s2 \<leftarrow> unstage_rows (Nhalo s) (k * Sizeof ty) host s1;
          Some (s2, out) }"
    and 4: "Finish red inbox r k ty op Trans host s =
     do { (s1, out) \<leftarrow> run_levels (red k ty op) inbox r host (k * Sizeof ty) (levelsT s) (Nlevels s) s;
          s2 \<leftarrow> unstage_rows (NhaloP s) (k * Sizeof ty) host s1;
          Some (s2, out) }"
    by (simp_all add: Finish_cases)
  show ?thesis
    using 1 2 3 4 stage_rows_copy[of s host N Nb s'] unstage_rows_copy[of s host N Nb s'']
      stage_rows_skip[of s host N Nb] unstage_rows_skip[of s host N Nb]
      run_levels_plan[of rd inbox r host Nb levels n s t out]
    by (intro conjI impI) blast+
qed

definition one_level_router :: "nat ogsCrystalRouter_t" where
  "one_level_router =
     \<lparr>NhaloP = 1, Nhalo = 2, Nlevels = 1,
      levelsN = [\<lparr>Nmsg = 0, partner = 1, Nsend = 0, Nrecv0 = 0, Nrecv1 = 0, recvOffset = 2,
                  sendIds = [],
                  gather = \<lparr>NrowsN = 2, NrowsT = 2, Ncols = 2, rowStartsT = [0, 1, 1],
                            colIdsT = [0], nnzT = 1\<rparr>\<rparr>],
      levelsT = [\<lparr>Nmsg = 0, partner = 1, Nsend = 1, Nrecv0 = 0, Nrecv1 = 0, recvOffset = 2,
                  sendIds = [1],
                  gather = \<lparr>NrowsN = 2, NrowsT = 2, Ncols = 2, rowStartsT = [0, 1, 2],
                            colIdsT = [0, 1], nnzT = 2\<rparr>\<rparr>],
      NsendMax = 1, NrecvMax = 2, gpu_aware = False,
      sendBuf = [0, 0, 0, 0], o_sendBuf = [0, 0, 0, 0],
      buf0 = [0, 0, 0, 0, 0, 0, 0, 0], buf1 = [0, 0, 0, 0, 0, 0, 0, 0],
      o_buf0 = [1, 2, 3, 4, 5, 6, 7, 8], o_buf1 = [0, 0, 0, 0, 0, 0, 0, 0],
      haloBuf = 0, recvBuf = 1, o_haloBuf = 0, o_recvBuf = 1, buf_id = 0\<rparr>"

definition first_row :: "nat \<Rightarrow> Type \<Rightarrow> Op \<Rightarrow> nat list list \<Rightarrow> nat list" where
  "first_row k ty op rows = (case rows of [] \<Rightarrow> replicate (k * Sizeof ty) 0 | x # _ \<Rightarrow> x)"

definition no_mail :: "nat \<Rightarrow> int \<Rightarrow> nat list" where
  "no_mail l q = []"

theorem C6_direction_selects_witness:
  "\<not> gpu_aware one_level_router \<and> NhaloP one_level_router = 1 \<and> Nhalo one_level_router = 2 \<and>
   map_option buf0 (Start 1 Float Add NoTrans False one_level_router) = Some [1, 2, 3, 4, 0, 0, 0, 0] \<and>
   map_option buf0 (Start 1 Float Add Trans False one_level_router) = Some [1, 2, 3, 4, 5, 6, 7, 8] \<and>
   map_option snd (Finish first_row no_mail 0 1 Float Add NoTrans False
     (the (Start 1 Float Add NoTrans False one_level_router))) = Some [(1, [])] \<and>
   map_option snd (Finish first_row no_mail 0 1 Float Add Trans False
     (the (Start 1 Float Add Trans False one_level_router))) = Some [(1, [5, 6, 7, 8])]"
proof -
  let ?w = one_level_router
  have f: "\<not> gpu_aware ?w" "NhaloP ?w = 1" "Nhalo ?w = 2" by (simp_all add: one_level_router_def)
  note c = C6_direction_selects[of 1 Float Add False ?w first_row no_mail 0 1 4
      "?w\<lparr>buf0 := [1, 2, 3, 4, 0, 0, 0, 0]\<rparr>"]
  have st: "stage_rows 1 4 False ?w = Some (?w\<lparr>buf0 := [1, 2, 3, 4, 0, 0, 0, 0]\<rparr>)" by code_simp
  have sz: "1 * Sizeof Float = 4" by (simp add: Sizeof_def)
  from c[THEN conjunct1]
  have "Start 1 Float Add NoTrans False ?w = stage_rows (NhaloP ?w) (1 * Sizeof Float) False ?w" .
  then have a: "map_option buf0 (Start 1 Float Add NoTrans False ?w) = Some [1, 2, 3, 4, 0, 0, 0, 0]"
    unfolding f sz st by simp
  have b: "map_option buf0 (Start 1 Float Add Trans False ?w) = Some [1, 2, 3, 4, 5, 6, 7, 8]"
    by code_simp
  have d: "map_option snd (Finish first_row no_mail 0 1 Float Add NoTrans False
     (the (Start 1 Float Add NoTrans False ?w))) = Some [(1, [])]"
    by code_simp
  have e: "map_option snd (Finish first_row no_mail 0 1 Float Add Trans False
     (the (Start 1 Float Add Trans False ?w))) = Some [(1, [5, 6, 7, 8])]"
    by code_simp
  from f a b d e show ?thesis by simp
qed

section \<open>The constructor\<close>

subsection \<open>Arrays and loops that can fail\<close>

text \<open>
  A C array is a list; an index comes as a \<^verbatim>\<open>dlong\<close>. Reading or writing outside the array
  is undefined behaviour in the source: the model stops with \<open>None\<close>.
\<close>

definition aget :: "'a list \<Rightarrow> int \<Rightarrow> 'a option" where
  "aget xs i = (if 0 \<le> i \<and> i < int (length xs) then Some (xs ! nat i) else None)"

definition aset :: "'a list \<Rightarrow> int \<Rightarrow> 'a \<Rightarrow> 'a list option" where
  "aset xs i v = (if 0 \<le> i \<and> i < int (length xs) then Some (xs[nat i := v]) else None)"

definition ainc :: "int list \<Rightarrow> int \<Rightarrow> int list option" where
  "ainc xs i = do { v \<leftarrow> aget xs i; aset xs i (v + 1) }"

definition ofold :: "('a \<Rightarrow> 's \<Rightarrow> 's option) \<Rightarrow> 'a list \<Rightarrow> 's \<Rightarrow> 's option" where
  "ofold f xs s = fold (\<lambda>x acc. acc \<bind> f x) xs (Some s)"

subsection \<open>The node list at the start (lines 231--256)\<close>

text \<open>
  \<^verbatim>\<open>std::sort\<close> is a parameter \<open>srt\<close> of the model: a function that takes the comparison
  and the array and returns the array sorted. The three comparisons of the source follow.
\<close>

definition by_newId :: "parallelNode_t \<Rightarrow> parallelNode_t \<Rightarrow> bool" where
  "by_newId a b \<longleftrightarrow> newId a < newId b"

definition by_baseId :: "parallelNode_t \<Rightarrow> parallelNode_t \<Rightarrow> bool" where
  "by_baseId a b \<longleftrightarrow>
     (if \<bar>baseId a\<bar> < \<bar>baseId b\<bar> then True
      else if \<bar>baseId a\<bar> > \<bar>baseId b\<bar> then False
      else newId a > newId b)"

text \<open>
  The copies of the nodes this process holds (lines 236--241). \<^verbatim>\<open>localId\<close> is not set
  there; it is written before its first use (line 418), and is 0 here until then.
\<close>

definition own_node :: "int \<Rightarrow> int \<Rightarrow> nat \<Rightarrow> parallelNode_t" where
  "own_node r NhaloP' n =
     \<lparr>localId = 0, baseId = 0, rank = r, newId = int n,
      sign = (if int n < NhaloP' then 2 else - 2)\<rparr>"

text \<open>
  One iteration of the loop of lines 242--250, on the array of \<open>Nhalo + Nshared\<close> records
  of line 233. An index outside the array is undefined behaviour and stops the model.
\<close>

definition claim_baseId :: "int \<Rightarrow> parallelNode_t \<Rightarrow> parallelNode_t list \<Rightarrow> parallelNode_t list option" where
  "claim_baseId NhaloP' sn nodes =
     (let nid = newId sn in do {
        nd \<leftarrow> aget nodes nid;
        if baseId nd = 0 then
          (if nid < NhaloP' then aset nodes nid (nd\<lparr>baseId := \<bar>baseId sn\<bar>\<rparr>)
           else aset nodes nid (nd\<lparr>baseId := - \<bar>baseId sn\<bar>\<rparr>))
        else Some nodes })"

text \<open>
  Lines 231--256. Only the first \<open>Nhalo\<close> records of the new array are initialised when
  the loop of lines 242--250 runs; the other \<open>Nshared\<close> records hold whatever the memory
  held, the record \<open>uninit\<close>, until line 251 overwrites them. A descriptor whose \<open>newId\<close>
  is \<open>Nhalo\<close> or more reads such a record, and may write its \<open>baseId\<close>, which line 251
  then overwrites.
\<close>

definition init_nodes ::
  "((parallelNode_t \<Rightarrow> parallelNode_t \<Rightarrow> bool) \<Rightarrow> parallelNode_t list \<Rightarrow> parallelNode_t list) \<Rightarrow>
   parallelNode_t \<Rightarrow> int \<Rightarrow> int \<Rightarrow> int \<Rightarrow> parallelNode_t list \<Rightarrow> parallelNode_t list option" where
  "init_nodes srt uninit r NhaloP' Nhalo' sharedNodes =
     (if Nhalo' < 0 then None
      else do {
        arr \<leftarrow> ofold (claim_baseId NhaloP') sharedNodes
                 (map (own_node r NhaloP') [0..<nat Nhalo'] @ replicate (length sharedNodes) uninit);
        Some (srt by_newId (take (nat Nhalo') arr @ sharedNodes)) })"

subsection \<open>One round: what a process sends (lines 264--363, 377, 397)\<close>

record crLocals =
  np :: int
  np_offset :: int
  nodes :: "parallelNode_t list"
  haloBuf_size :: int
  NhaloExtT :: int
  NhaloExtN :: int

text \<open>
  The indices in \<open>[lo, hi)\<close> at which a run of one \<open>abs(baseId)\<close> starts, as the tests
  \<^verbatim>\<open>n==lo || abs(nodes[n].baseId)!=abs(nodes[n-1].baseId)\<close> of lines 336, 349, 535, 546,
  554 and their twins find them.
\<close>

definition heads :: "parallelNode_t list \<Rightarrow> nat \<Rightarrow> nat \<Rightarrow> nat list" where
  "heads xs lo hi = filter (\<lambda>n. n = lo \<or> absId (xs ! n) \<noteq> absId (xs ! (n - 1))) [lo..<hi]"

text \<open>The split of lines 310--330: the half that is kept and the half that is sent.\<close>

definition is_lo :: "int \<Rightarrow> crLocals \<Rightarrow> bool" where
  "is_lo r L \<longleftrightarrow> r < (np L + 1) div 2 + np_offset L"

definition loNodes :: "crLocals \<Rightarrow> parallelNode_t list" where
  "loNodes L = filter (\<lambda>n. rank n < (np L + 1) div 2 + np_offset L) (nodes L)"

definition hiNodes :: "crLocals \<Rightarrow> parallelNode_t list" where
  "hiNodes L = filter (\<lambda>n. \<not> rank n < (np L + 1) div 2 + np_offset L) (nodes L)"

definition keptNodes :: "int \<Rightarrow> crLocals \<Rightarrow> parallelNode_t list" where
  "keptNodes r L = (if is_lo r L then loNodes L else hiNodes L)"

definition sendNodes :: "int \<Rightarrow> crLocals \<Rightarrow> parallelNode_t list" where
  "sendNodes r L = (if is_lo r L then hiNodes L else loNodes L)"

text \<open>The index lists of lines 346--356, for the transposed and the forward schedule.\<close>

definition sendIdsT_of :: "parallelNode_t list \<Rightarrow> int list" where
  "sendIdsT_of sn = map (\<lambda>n. newId (sn ! n)) (heads sn 0 (length sn))"

definition sendIdsN_of :: "parallelNode_t list \<Rightarrow> int list" where
  "sendIdsN_of sn = map (\<lambda>n. newId (sn ! n)) (filter (\<lambda>n. sign (sn ! n) > 0) (heads sn 0 (length sn)))"

text \<open>
  What a process hands to the transport in one round: the destination, then the payloads
  of the four sends in order, \<^verbatim>\<open>Nsend\<close> (line 294), \<^verbatim>\<open>NentriesSendT\<close> (line 363),
  \<^verbatim>\<open>NentriesSendN\<close> (line 377) and the nodes with their \<open>newId\<close> wiped (lines 355, 397).
\<close>

record crMsg =
  dest :: int
  m_Nsend :: int
  m_NentriesSendT :: int
  m_NentriesSendN :: int
  m_nodes :: "parallelNode_t list"

definition round_msg :: "int \<Rightarrow> crLocals \<Rightarrow> crMsg" where
  "round_msg r L =
     (let sn = sendNodes r L in
      \<lparr>dest = fst (level_partner r (np L) (np_offset L)),
       m_Nsend = int (length sn),
       m_NentriesSendT = int (length (sendIdsT_of sn)),
       m_NentriesSendN = int (length (sendIdsN_of sn)),
       m_nodes = map (\<lambda>n. n\<lparr>newId := - 1\<rparr>) sn\<rparr>)"

subsection \<open>One round: the new ids (lines 417--500)\<close>

definition set_localIds :: "parallelNode_t list \<Rightarrow> parallelNode_t list" where
  "set_localIds xs = map (\<lambda>n. (xs ! n)\<lparr>localId := int n\<rparr>) [0..<length xs]"

text \<open>The test \<^verbatim>\<open>n==N-1 || abs(nodes[n].baseId)!=abs(nodes[n+1].baseId)\<close> that ends a group.\<close>

definition group_end :: "parallelNode_t list \<Rightarrow> nat \<Rightarrow> bool" where
  "group_end xs n \<longleftrightarrow> n = length xs - 1 \<or> absId (xs ! n) \<noteq> absId (xs ! (n + 1))"

text \<open>The inner loops that look for a positive sign in \<open>[start, end)\<close> and stop at the first.\<close>

definition positive_in :: "parallelNode_t list \<Rightarrow> nat \<Rightarrow> nat \<Rightarrow> int option" where
  "positive_in xs start end =
     map_option (\<lambda>i. sign (xs ! i)) (find (\<lambda>i. sign (xs ! i) > 0) [start..<end])"

text \<open>Lines 429--453: the count of the groups that get a row in the extended halo.\<close>

definition count_step :: "int \<Rightarrow> parallelNode_t list \<Rightarrow> nat \<Rightarrow> nat \<times> int \<times> int \<Rightarrow> nat \<times> int \<times> int" where
  "count_step Nhalo' xs n st =
     (let start = fst st; extN = fst (snd st); extT = snd (snd st) in
      if group_end xs n then
        (let end = n + 1; id = newId (xs ! start) in
         if id \<ge> Nhalo' \<or> id = - 1 then
           (end, (if positive_in xs start end \<noteq> None then extN + 1 else extN), extT + 1)
         else (end, extN, extT))
      else st)"

definition count_ext :: "int \<Rightarrow> parallelNode_t list \<Rightarrow> int \<times> int" where
  "count_ext Nhalo' xs = snd (fold (count_step Nhalo' xs) [0..<length xs] (0, 0, 0))"

text \<open>Lines 456--497: the ids are handed out and written into the groups.\<close>

record crAssign =
  a_start :: nat
  a_extN :: int
  a_extT :: int
  a_indexMap :: "int list"
  a_nodes :: "parallelNode_t list"

definition set_newIds :: "parallelNode_t list \<Rightarrow> nat \<Rightarrow> nat \<Rightarrow> int \<Rightarrow> parallelNode_t list" where
  "set_newIds xs start end v = fold (\<lambda>i ns. ns[i := (ns ! i)\<lparr>newId := v\<rparr>]) [start..<end] xs"

definition assign_step :: "int \<Rightarrow> nat \<Rightarrow> crAssign \<Rightarrow> crAssign option" where
  "assign_step Nhalo' n st =
     (let xs = a_nodes st; start = a_start st in
      if group_end xs n then
        (let end = n + 1; id = newId (xs ! start) in
         if id \<ge> Nhalo' \<or> id = - 1 then
           (let sgn = (case positive_in xs start end of Some v \<Rightarrow> v | None \<Rightarrow> - 2);
                id' = (if sgn > 0 then a_extN st else a_extT st)
            in do {
              im \<leftarrow> aset (a_indexMap st) (id' - Nhalo') (newId (xs ! start));
              Some (st\<lparr>a_start := end,
                       a_extN := (if sgn > 0 then a_extN st + 1 else a_extN st),
                       a_extT := (if sgn > 0 then a_extT st else a_extT st + 1),
                       a_indexMap := im,
                       a_nodes := set_newIds xs start end id'\<rparr>) })
         else Some (st\<lparr>a_start := end, a_nodes := set_newIds xs start end id\<rparr>))
      else Some st)"

definition reindex :: "int \<Rightarrow> parallelNode_t list \<Rightarrow> crAssign option" where
  "reindex Nhalo' xs =
     (let cnt = count_ext Nhalo' xs in
      ofold (assign_step Nhalo') [0..<length xs]
        \<lparr>a_start = 0, a_extN = Nhalo', a_extT = Nhalo' + fst cnt,
         a_indexMap = replicate (nat (snd cnt)) 0, a_nodes = xs\<rparr>)"

text \<open>
  Modelled from the spec: \<^verbatim>\<open>permute\<close> of \<^verbatim>\<open>ogs/ogsUtils.hpp\<close>, which puts every record at
  the position its \<open>localId\<close> names (the spec: a stable position used to restore the
  original order after a sort).
\<close>

definition permute_localId :: "parallelNode_t list \<Rightarrow> parallelNode_t list option" where
  "permute_localId xs = those (map (\<lambda>i. find (\<lambda>x. localId x = int i) xs) [0..<length xs])"

subsection \<open>One round: the two operators (lines 502--652)\<close>

record crGather =
  rowsN :: "int list"
  rowsT :: "int list"
  colsN :: "int list"
  colsT :: "int list"

text \<open>Lines 525 and 528--531: \<^verbatim>\<open>rowStartsT[n+1]=1\<close> for \<open>n < K\<close>.\<close>

definition mark_rows :: "int \<Rightarrow> int list \<Rightarrow> int list option" where
  "mark_rows K rs = ofold (\<lambda>n a. aset a (int n + 1) 1) [0..<nat K] rs"

text \<open>
  The bodies of the counting loops of lines 534--559. \<open>kept\<close> marks the loop over the
  nodes that stayed, which skips the ids below \<open>Nhalo\<close>.
\<close>

definition count_node :: "bool \<Rightarrow> int \<Rightarrow> parallelNode_t list \<Rightarrow> nat \<Rightarrow> crGather \<Rightarrow> crGather option" where
  "count_node kept Nhalo' xs n g =
     (let id = newId (xs ! n) in
      if kept \<and> \<not> id \<ge> Nhalo' then Some g
      else do {
        rn \<leftarrow> (if sign (xs ! n) > 0 then ainc (rowsN g) (id + 1) else Some (rowsN g));
        rt \<leftarrow> ainc (rowsT g) (id + 1);
        Some (g\<lparr>rowsN := rn, rowsT := rt\<rparr>) })"

text \<open>Lines 561--564: \<^verbatim>\<open>rowStarts[i+1] += rowStarts[i]\<close>, for one array and for both.\<close>

definition prefix1 :: "nat \<Rightarrow> int list \<Rightarrow> int list option" where
  "prefix1 i rs = do {
     t0 \<leftarrow> aget rs (int i);
     t1 \<leftarrow> aget rs (int i + 1);
     aset rs (int i + 1) (t1 + t0) }"

definition prefix_step :: "nat \<Rightarrow> crGather \<Rightarrow> crGather option" where
  "prefix_step i g = do {
     rt \<leftarrow> prefix1 i (rowsT g);
     rn \<leftarrow> prefix1 i (rowsN g);
     Some (g\<lparr>rowsN := rn, rowsT := rt\<rparr>) }"

text \<open>
  \<^verbatim>\<open>colIds[rowStarts[row]++] = c\<close>, for one pair of arrays, then for the transposed and
  for the forward operator.
\<close>

definition cput :: "int list \<times> int list \<Rightarrow> int \<Rightarrow> int \<Rightarrow> (int list \<times> int list) option" where
  "cput a row c = do {
     p \<leftarrow> aget (fst a) row;
     cs \<leftarrow> aset (snd a) p c;
     rs \<leftarrow> aset (fst a) row (p + 1);
     Some (rs, cs) }"

definition putT :: "int \<Rightarrow> int \<Rightarrow> crGather \<Rightarrow> crGather option" where
  "putT row c g = do {
     a \<leftarrow> cput (rowsT g, colsT g) row c;
     Some (g\<lparr>rowsT := fst a, colsT := snd a\<rparr>) }"

definition putN :: "int \<Rightarrow> int \<Rightarrow> crGather \<Rightarrow> crGather option" where
  "putN row c g = do {
     a \<leftarrow> cput (rowsN g, colsN g) row c;
     Some (g\<lparr>rowsN := fst a, colsN := snd a\<rparr>) }"

text \<open>Lines 578--591: the columns of the rows that exist already.\<close>

definition fill_identityT :: "int \<Rightarrow> crGather \<Rightarrow> crGather option" where
  "fill_identityT K g = ofold (\<lambda>n. putT (int n) (int n)) [0..<nat K] g"

definition fill_identityN :: "int \<Rightarrow> crGather \<Rightarrow> crGather option" where
  "fill_identityN K g = ofold (\<lambda>n. putN (int n) (int n)) [0..<nat K] g"

text \<open>Lines 593--604.\<close>

definition fill_kept :: "int \<Rightarrow> int list \<Rightarrow> parallelNode_t list \<Rightarrow> nat \<Rightarrow> crGather \<Rightarrow> crGather option" where
  "fill_kept Nhalo' indexMap xs n g =
     (let id = newId (xs ! n) in
      if id \<ge> Nhalo' then do {
        g1 \<leftarrow> (if sign (xs ! n) > 0 then do { c \<leftarrow> aget indexMap (id - Nhalo'); putN id c g }
               else Some g);
        c \<leftarrow> aget indexMap (id - Nhalo');
        putT id c g1 }
      else Some g)"

text \<open>
  Lines 608--629: the state carries the counters \<^verbatim>\<open>NentriesRecvN\<close> and \<^verbatim>\<open>NentriesRecvT\<close>
  next to the arrays.
\<close>

definition fill_recv :: "parallelNode_t list \<Rightarrow> nat \<Rightarrow> crGather \<times> int \<times> int \<Rightarrow> (crGather \<times> int \<times> int) option" where
  "fill_recv xs n st =
     (let g = fst st; cN = fst (snd st); cT = snd (snd st); id = newId (xs ! n) in do {
        (g1, cN1) \<leftarrow> (if sign (xs ! n) > 0 then do { g' \<leftarrow> putN id cN g; Some (g', cN + 1) }
                      else Some (g, cN));
        g2 \<leftarrow> putT id cT g1;
        Some (g2, cN1, cT + 1) })"

text \<open>Lines 631--637, for one array.\<close>

definition reset_rows :: "int \<Rightarrow> int list \<Rightarrow> int list option" where
  "reset_rows K rs = do {
     a \<leftarrow> ofold (\<lambda>i a. do { v \<leftarrow> aget a (int i - 1); aset a (int i) v }) (rev [1..<Suc (nat K)]) rs;
     aset a 0 0 }"

text \<open>
  The operators of one level. \<open>first\<close> is the test \<^verbatim>\<open>np==size\<close>; \<open>xs\<close> is the node array
  in its order of line 418 with the new ids; \<open>offset\<close> and \<open>Nrecv0'\<close> delimit the kept
  nodes and the two received messages; \<open>colsN0\<close> and \<open>colsT0\<close> are the column counts
  \<^verbatim>\<open>recvOffset + NentriesRecv0 + NentriesRecv1\<close> of the two schedules, \<open>offN\<close> and \<open>offT\<close>
  the two \<^verbatim>\<open>recvOffset\<close>.
\<close>

definition build_gather ::
  "bool \<Rightarrow> int \<Rightarrow> int \<Rightarrow> int \<Rightarrow> int \<Rightarrow> int list \<Rightarrow> parallelNode_t list \<Rightarrow> nat \<Rightarrow> nat \<Rightarrow>
   int \<Rightarrow> int \<Rightarrow> int \<Rightarrow> int \<Rightarrow> (ogsOperator_t \<times> ogsOperator_t) option" where
  "build_gather first NhaloP' Nhalo' extN extT indexMap xs offset Nrecv0' offN offT colsN0 colsT0 =
     (if extT < 0 then None
      else do {
        let g0 = \<lparr>rowsN = replicate (nat (extT + 1)) 0, rowsT = replicate (nat (extT + 1)) 0,
                  colsN = [], colsT = []\<rparr>;
        rt \<leftarrow> mark_rows Nhalo' (rowsT g0);
        rn \<leftarrow> mark_rows (if first then NhaloP' else Nhalo') (rowsN g0);
        g1 \<leftarrow> ofold (count_node True Nhalo' xs) (heads xs 0 offset) (g0\<lparr>rowsN := rn, rowsT := rt\<rparr>);
        g2 \<leftarrow> ofold (count_node False Nhalo' xs) (heads xs offset (offset + Nrecv0')) g1;
        g3 \<leftarrow> ofold (count_node False Nhalo' xs) (heads xs (offset + Nrecv0') (length xs)) g2;
        g4 \<leftarrow> ofold prefix_step [0..<nat extT] g3;
        nnzT' \<leftarrow> aget (rowsT g4) extT;
        nnzN' \<leftarrow> aget (rowsN g4) extN;
        let g5 = g4\<lparr>colsN := replicate (nat nnzN') 0, colsT := replicate (nat nnzT') 0\<rparr>;
        g6 \<leftarrow> fill_identityT Nhalo' g5;
        g7 \<leftarrow> fill_identityN (if first then NhaloP' else Nhalo') g6;
        g8 \<leftarrow> ofold (fill_kept Nhalo' indexMap xs) (heads xs 0 offset) g7;
        st9 \<leftarrow> ofold (fill_recv xs) (heads xs offset (offset + Nrecv0')) (g8, offN, offT);
        st10 \<leftarrow> ofold (fill_recv xs) (heads xs (offset + Nrecv0') (length xs)) st9;
        rt' \<leftarrow> reset_rows extT (rowsT (fst st10));
        rn' \<leftarrow> reset_rows extT (rowsN (fst st10));
        Some (\<lparr>NrowsN = extN, NrowsT = extN, Ncols = colsN0, rowStartsT = rn',
                colIdsT = colsN (fst st10), nnzT = nnzN'\<rparr>,
              \<lparr>NrowsN = extT, NrowsT = extT, Ncols = colsT0, rowStartsT = rt',
                colIdsT = colsT (fst st10), nnzT = nnzT'\<rparr>) })"

subsection \<open>One round: after the receives\<close>

text \<open>
  The state of one process between rounds: the local variables of the constructor and
  the levels built so far.
\<close>

record crBuild =
  locals :: crLocals
  lvN :: "crLevel list"
  lvT :: "crLevel list"

text \<open>
  The rest of the loop body, from the completion of the receives on. \<open>m0\<close> is what the
  partner sent and \<open>m1\<close> what rank \<open>r_half - 1\<close> sent; a receive that was not posted
  leaves its counts at 0 (lines 296, 365, 379). \<open>size'\<close> is the member \<^verbatim>\<open>size\<close>.
\<close>

definition round_recv ::
  "((parallelNode_t \<Rightarrow> parallelNode_t \<Rightarrow> bool) \<Rightarrow> parallelNode_t list \<Rightarrow> parallelNode_t list) \<Rightarrow>
   int \<Rightarrow> int \<Rightarrow> int \<Rightarrow> int \<Rightarrow> crMsg option \<Rightarrow> crMsg option \<Rightarrow> crBuild \<Rightarrow> crBuild option" where
  "round_recv srt size' r NhaloP' Nhalo' m0 m1 B =
     (let L = locals B;
          pm = level_partner r (np L) (np_offset L);
          sn = sendNodes r L;
          kept = keptNodes r L;
          offset = length kept;
          recv0 = (case m0 of Some m \<Rightarrow> m_nodes m | None \<Rightarrow> []);
          recv1 = (case m1 of Some m \<Rightarrow> m_nodes m | None \<Rightarrow> []);
          NentriesRecvT0 = (case m0 of Some m \<Rightarrow> m_NentriesSendT m | None \<Rightarrow> 0);
          NentriesRecvT1 = (case m1 of Some m \<Rightarrow> m_NentriesSendT m | None \<Rightarrow> 0);
          NentriesRecvN0 = (case m0 of Some m \<Rightarrow> m_NentriesSendN m | None \<Rightarrow> 0);
          NentriesRecvN1 = (case m1 of Some m \<Rightarrow> m_NentriesSendN m | None \<Rightarrow> 0);
          buf_size = NhaloExtT L + NentriesRecvT0 + NentriesRecvT1;
          hbs = (if buf_size > haloBuf_size L then buf_size else haloBuf_size L);
          xs0 = set_localIds (kept @ recv0 @ recv1)
      in do {
        a \<leftarrow> reindex Nhalo' (srt by_baseId xs0);
        xs \<leftarrow> permute_localId (a_nodes a);
        (gN, gT) \<leftarrow> build_gather (np L = size') NhaloP' Nhalo' (a_extN a) (a_extT a) (a_indexMap a)
                      xs offset (length recv0) (NhaloExtN L) (NhaloExtT L)
                      (NhaloExtN L + NentriesRecvN0 + NentriesRecvN1)
                      (NhaloExtT L + NentriesRecvT0 + NentriesRecvT1);
        let levelN = \<lparr>Nmsg = snd pm, partner = fst pm, Nsend = int (length (sendIdsN_of sn)),
                       Nrecv0 = NentriesRecvN0, Nrecv1 = NentriesRecvN1, recvOffset = NhaloExtN L,
                       sendIds = sendIdsN_of sn, gather = gN\<rparr>;
        let levelT = \<lparr>Nmsg = snd pm, partner = fst pm, Nsend = int (length (sendIdsT_of sn)),
                       Nrecv0 = NentriesRecvT0, Nrecv1 = NentriesRecvT1, recvOffset = NhaloExtT L,
                       sendIds = sendIdsT_of sn, gather = gT\<rparr>;
        let sh = shrink r (np L) (np_offset L);
        Some \<lparr>locals = \<lparr>np = fst sh, np_offset = snd sh,
                         nodes = propagate_sign (srt by_newId xs),
                         haloBuf_size = hbs, NhaloExtT = a_extT a, NhaloExtN = a_extN a\<rparr>,
              lvN = lvN B @ [levelN], lvT = lvT B @ [levelT]\<rparr> })"

subsection \<open>All processes together\<close>

text \<open>
  The processes exchange messages only inside a round, every receive names its source,
  and messages between two processes arrive in the order they were sent: the result of
  the exchange does not depend on the timing, and the model runs the processes round by
  round. \<open>Bs\<close> holds the state of every process, by rank. \<open>fetch Bs q r\<close> is the
  message that rank \<open>q\<close> sends to rank \<open>r\<close> in the coming round; when \<open>q\<close> sends nothing
  to \<open>r\<close> the receive never completes, and the model stops with \<open>None\<close>.
\<close>

definition fetch :: "crBuild list \<Rightarrow> int \<Rightarrow> int \<Rightarrow> crMsg option" where
  "fetch Bs q r =
     (if 0 \<le> q \<and> q < int (length Bs) then
        (let L = locals (Bs ! nat q) in
         if np L > 1 \<and> dest (round_msg q L) = r then Some (round_msg q L) else None)
      else None)"

definition ctor_round ::
  "((parallelNode_t \<Rightarrow> parallelNode_t \<Rightarrow> bool) \<Rightarrow> parallelNode_t list \<Rightarrow> parallelNode_t list) \<Rightarrow>
   (int \<times> int) list \<Rightarrow> crBuild list \<Rightarrow> crBuild list option" where
  "ctor_round srt halos Bs =
     those (map (\<lambda>i.
       (let r = int i; B = Bs ! i; L = locals B in
        if np L > 1 then
          (let pm = level_partner r (np L) (np_offset L);
               r_half = (np L + 1) div 2 + np_offset L
           in do {
             m0 \<leftarrow> (if snd pm > 0 then map_option Some (fetch Bs (fst pm) r) else Some None);
             m1 \<leftarrow> (if snd pm = 2 then map_option Some (fetch Bs (r_half - 1) r) else Some None);
             round_recv srt (int (length Bs)) r (fst (halos ! i)) (snd (halos ! i)) m0 m1 B })
        else Some B)) [0..<length Bs])"

lemma those_Some_nth:
  "those xs = Some ys \<Longrightarrow> length ys = length xs \<and> (\<forall>i<length xs. xs ! i = Some (ys ! i))"
proof (induction xs arbitrary: ys)
  case Nil
  then show ?case by simp
next
  case (Cons x xs)
  from Cons.prems obtain y ys' where x: "x = Some y" and t: "those xs = Some ys'" and ys: "ys = y # ys'"
    by (auto split: option.splits)
  from Cons.IH[OF t] show ?case
    using x ys by (auto simp: nth_Cons split: nat.splits)
qed

lemma those_map_Some:
  assumes "those (map f xs) = Some ys"
  shows "length ys = length xs" and "\<And>i. i < length xs \<Longrightarrow> f (xs ! i) = Some (ys ! i)"
  using those_Some_nth[OF assms] by auto

lemma round_recv_locals:
  assumes "round_recv srt size' r NhaloP' Nhalo' m0 m1 B = Some B'"
  shows "np (locals B') = fst (shrink r (np (locals B)) (np_offset (locals B)))"
    and "np_offset (locals B') = snd (shrink r (np (locals B)) (np_offset (locals B)))"
    and "length (lvN B') = Suc (length (lvN B))" and "length (lvT B') = Suc (length (lvT B))"
  using assms unfolding round_recv_def Let_def
  by (auto split: bind_splits prod.splits)

lemma ctor_round_np:
  assumes "ctor_round srt halos Bs = Some Bs'"
  shows "length Bs' = length Bs"
    and "\<And>i. i < length Bs \<Longrightarrow>
      np (locals (Bs' ! i)) =
        (if np (locals (Bs ! i)) > 1
         then fst (shrink (int i) (np (locals (Bs ! i))) (np_offset (locals (Bs ! i))))
         else np (locals (Bs ! i)))"
    and "\<And>i. i < length Bs \<Longrightarrow>
      np_offset (locals (Bs' ! i)) =
        (if np (locals (Bs ! i)) > 1
         then snd (shrink (int i) (np (locals (Bs ! i))) (np_offset (locals (Bs ! i))))
         else np_offset (locals (Bs ! i)))"
proof -
  note t = those_map_Some[OF assms[unfolded ctor_round_def]]
  from t(1) show "length Bs' = length Bs" by simp
  fix i assume i: "i < length Bs"
  have idx: "[0..<length Bs] ! i = i" using i by simp
  from t(2)[of i] i have e: "(let r = int i; B = Bs ! i; L = locals B in
        if np L > 1 then
          (let pm = level_partner r (np L) (np_offset L);
               r_half = (np L + 1) div 2 + np_offset L
           in do {
             m0 \<leftarrow> (if snd pm > 0 then map_option Some (fetch Bs (fst pm) r) else Some None);
             m1 \<leftarrow> (if snd pm = 2 then map_option Some (fetch Bs (r_half - 1) r) else Some None);
             round_recv srt (int (length Bs)) r (fst (halos ! i)) (snd (halos ! i)) m0 m1 B })
        else Some B) = Some (Bs' ! i)"
    unfolding idx by simp
  show "np (locals (Bs' ! i)) =
        (if np (locals (Bs ! i)) > 1
         then fst (shrink (int i) (np (locals (Bs ! i))) (np_offset (locals (Bs ! i))))
         else np (locals (Bs ! i)))"
    using e by (auto simp: Let_def dest: round_recv_locals split: if_splits bind_splits)
  show "np_offset (locals (Bs' ! i)) =
        (if np (locals (Bs ! i)) > 1
         then snd (shrink (int i) (np (locals (Bs ! i))) (np_offset (locals (Bs ! i))))
         else np_offset (locals (Bs ! i)))"
    using e by (auto simp: Let_def dest: round_recv_locals split: if_splits bind_splits)
qed

lemma shrink_less: "1 < n \<Longrightarrow> nat (fst (shrink r n off)) < nat n"
  unfolding shrink_def Let_def by (auto split: if_splits)

lemma sum_list_nth_less:
  assumes "length xs = length ys" and "\<And>i. i < length xs \<Longrightarrow> xs ! i \<le> (ys ! i :: nat)"
    and "j < length xs" and "xs ! j < ys ! j"
  shows "sum_list xs < sum_list ys"
  using assms
proof (induction xs ys arbitrary: j rule: list_induct2)
  case Nil
  then show ?case by simp
next
  case (Cons x xs y ys)
  have le: "sum_list xs \<le> sum_list ys"
  proof (rule sum_list_mono2)
    show "length xs = length ys" by (rule Cons.hyps)
    fix i show "i < length xs \<longrightarrow> xs ! i \<le> ys ! i" using Cons.prems(1)[of "Suc i"] by simp
  qed
  have xy: "x \<le> y" using Cons.prems(1)[of 0] by simp
  show ?case
  proof (cases j)
    case 0
    with Cons.prems(3) have "x < y" by simp
    with le show ?thesis by simp
  next
    case (Suc j')
    have "sum_list xs < sum_list ys"
    proof (rule Cons.IH)
      show "j' < length xs" using Cons.prems(2) Suc by simp
      show "xs ! j' < ys ! j'" using Cons.prems(3) Suc by simp
      fix i assume "i < length xs"
      then show "xs ! i \<le> ys ! i" using Cons.prems(1)[of "Suc i"] by simp
    qed
    with xy show ?thesis by simp
  qed
qed

lemma ctor_round_decreases:
  assumes r: "ctor_round srt halos Bs = Some Bs'" and a: "\<exists>B\<in>set Bs. np (locals B) > 1"
  shows "sum_list (map (\<lambda>B. nat (np (locals B))) Bs') < sum_list (map (\<lambda>B. nat (np (locals B))) Bs)"
proof -
  note n = ctor_round_np[OF r]
  from a obtain j where j: "j < length Bs" "np (locals (Bs ! j)) > 1"
    by (auto simp: in_set_conv_nth)
  show ?thesis
  proof (rule sum_list_nth_less[where j = j])
    show "length (map (\<lambda>B. nat (np (locals B))) Bs') = length (map (\<lambda>B. nat (np (locals B))) Bs)"
      using n(1) by simp
    show "j < length (map (\<lambda>B. nat (np (locals B))) Bs')" using j n(1) by simp
    show "map (\<lambda>B. nat (np (locals B))) Bs' ! j < map (\<lambda>B. nat (np (locals B))) Bs ! j"
      using j n(1) n(2)[of j] shrink_less[OF j(2), of "int j" "np_offset (locals (Bs ! j))"] by simp
    fix i assume "i < length (map (\<lambda>B. nat (np (locals B))) Bs')"
    then have i: "i < length Bs" using n(1) by simp
    show "map (\<lambda>B. nat (np (locals B))) Bs' ! i \<le> map (\<lambda>B. nat (np (locals B))) Bs ! i"
    proof (cases "np (locals (Bs ! i)) > 1")
      case True
      have "nat (fst (shrink (int i) (np (locals (Bs ! i))) (np_offset (locals (Bs ! i)))))
          \<le> nat (np (locals (Bs ! i)))"
        by (rule less_imp_le[OF shrink_less[OF True]])
      then show ?thesis using i n(1) n(2)[of i] True by simp
    next
      case False
      then show ?thesis using i n(1) n(2)[of i] by simp
    qed
  qed
qed

text \<open>
  The loop \<^verbatim>\<open>while (np>1)\<close> of line 263, for all processes: rounds are run as long as a
  process has more than one rank in its window.
\<close>

function ctor_loop ::
  "((parallelNode_t \<Rightarrow> parallelNode_t \<Rightarrow> bool) \<Rightarrow> parallelNode_t list \<Rightarrow> parallelNode_t list) \<Rightarrow>
   (int \<times> int) list \<Rightarrow> crBuild list \<Rightarrow> crBuild list option" where
  "ctor_loop srt halos Bs =
     (if \<exists>B\<in>set Bs. np (locals B) > 1 then
        (case ctor_round srt halos Bs of
           None \<Rightarrow> None
         | Some Bs' \<Rightarrow> ctor_loop srt halos Bs')
      else Some Bs)"
  by pat_completeness auto
termination
  by (relation "measure (\<lambda>(srt, halos, Bs). sum_list (map (\<lambda>B. nat (np (locals B))) Bs))")
     (auto dest: ctor_round_decreases)

declare ctor_loop.simps [simp del]

subsection \<open>The end of the constructor (lines 690--700)\<close>

definition NsendMax_of :: "crLevel list \<Rightarrow> int" where
  "NsendMax_of lt =
     fold (\<lambda>k m. let Nsend' = Nsend (lt ! k) in if Nsend' > m then Nsend' else m) [0..<length lt] 0"

definition NrecvMax_of :: "crLevel list \<Rightarrow> int" where
  "NrecvMax_of lt =
     fold (\<lambda>k m. let Nrecv' = recvOffset (lt ! k) + Nrecv0 (lt ! k) + Nrecv1 (lt ! k)
                 in if Nrecv' > m then Nrecv' else m) [0..<length lt] 0"

text \<open>
  The object a process ends with. \<open>dsize\<close> is \<^verbatim>\<open>Sizeof(Dfloat)\<close>, \<open>gpu\<close> the member
  \<^verbatim>\<open>gpu_aware\<close>, which the base class sets. No buffer is allocated before the call of
  \<^verbatim>\<open>AllocBuffer\<close>.
\<close>

definition finish_ctor :: "'b \<Rightarrow> nat \<Rightarrow> bool \<Rightarrow> int \<times> int \<Rightarrow> crBuild \<Rightarrow> 'b ogsCrystalRouter_t" where
  "finish_ctor junk dsize gpu halo B =
     AllocBuffer junk dsize
       \<lparr>NhaloP = fst halo, Nhalo = snd halo, Nlevels = length (lvT B),
        levelsN = lvN B, levelsT = lvT B,
        NsendMax = NsendMax_of (lvT B), NrecvMax = NrecvMax_of (lvT B), gpu_aware = gpu,
        sendBuf = [], o_sendBuf = [], buf0 = [], buf1 = [], o_buf0 = [], o_buf1 = [],
        haloBuf = 0, recvBuf = 1, o_haloBuf = 0, o_recvBuf = 1, buf_id = 0\<rparr>"

text \<open>
  The constructor, run by every process of the communicator. \<open>inputs ! r\<close> holds
  \<^verbatim>\<open>gatherHalo.NrowsN\<close>, \<^verbatim>\<open>gatherHalo.NrowsT\<close> and the array \<^verbatim>\<open>sharedNodes\<close> of rank \<open>r\<close>;
  the size of the communicator is the number of inputs.
\<close>

definition init_build ::
  "((parallelNode_t \<Rightarrow> parallelNode_t \<Rightarrow> bool) \<Rightarrow> parallelNode_t list \<Rightarrow> parallelNode_t list) \<Rightarrow>
   parallelNode_t \<Rightarrow> int \<Rightarrow> int \<Rightarrow> int \<times> int \<times> parallelNode_t list \<Rightarrow> crBuild option" where
  "init_build srt uninit size' r inp =
     map_option
       (\<lambda>ns. \<lparr>locals = \<lparr>np = size', np_offset = 0, nodes = ns, haloBuf_size = fst (snd inp),
                         NhaloExtT = fst (snd inp), NhaloExtN = fst (snd inp)\<rparr>,
              lvN = [], lvT = []\<rparr>)
       (init_nodes srt uninit r (fst inp) (fst (snd inp)) (snd (snd inp)))"

definition build_all ::
  "((parallelNode_t \<Rightarrow> parallelNode_t \<Rightarrow> bool) \<Rightarrow> parallelNode_t list \<Rightarrow> parallelNode_t list) \<Rightarrow>
   parallelNode_t \<Rightarrow> (int \<times> int \<times> parallelNode_t list) list \<Rightarrow> crBuild list option" where
  "build_all srt uninit inputs = do {
     Bs0 \<leftarrow> those (map (\<lambda>i. init_build srt uninit (int (length inputs)) (int i) (inputs ! i))
                    [0..<length inputs]);
     ctor_loop srt (map (\<lambda>inp. (fst inp, fst (snd inp))) inputs) Bs0 }"

definition constructor ::
  "((parallelNode_t \<Rightarrow> parallelNode_t \<Rightarrow> bool) \<Rightarrow> parallelNode_t list \<Rightarrow> parallelNode_t list) \<Rightarrow>
   parallelNode_t \<Rightarrow> 'b \<Rightarrow> nat \<Rightarrow> bool \<Rightarrow> (int \<times> int \<times> parallelNode_t list) list \<Rightarrow>
   'b ogsCrystalRouter_t list option" where
  "constructor srt uninit junk dsize gpu inputs =
     map_option
       (\<lambda>Bs. map (\<lambda>i. finish_ctor junk dsize gpu (fst (inputs ! i), fst (snd (inputs ! i))) (Bs ! i))
                [0..<length Bs])
       (build_all srt uninit inputs)"

text \<open>A stable insertion sort, one function that meets the contract of \<^verbatim>\<open>std::sort\<close>.\<close>

fun insort_by :: "('a \<Rightarrow> 'a \<Rightarrow> bool) \<Rightarrow> 'a \<Rightarrow> 'a list \<Rightarrow> 'a list" where
  "insort_by lt x [] = [x]"
| "insort_by lt x (y # ys) = (if lt y x then y # insort_by lt x ys else x # y # ys)"

definition sort_by :: "('a \<Rightarrow> 'a \<Rightarrow> bool) \<Rightarrow> 'a list \<Rightarrow> 'a list" where
  "sort_by lt xs = foldr (insort_by lt) xs []"

section \<open>The constructor on concrete inputs\<close>

text \<open>
  The state of every process after \<open>n\<close> rounds of the loop of line 263, for inputs small
  enough to run. \<open>zero_node\<close> stands for the uninitialised records of line 233, and
  \<open>descriptor newId baseId rank sign\<close> is an entry of \<^verbatim>\<open>sharedNodes\<close>.
\<close>

primrec ctor_rounds ::
  "nat \<Rightarrow> ((parallelNode_t \<Rightarrow> parallelNode_t \<Rightarrow> bool) \<Rightarrow> parallelNode_t list \<Rightarrow> parallelNode_t list) \<Rightarrow>
   (int \<times> int) list \<Rightarrow> crBuild list \<Rightarrow> crBuild list option" where
  "ctor_rounds 0 srt halos Bs = Some Bs"
| "ctor_rounds (Suc n) srt halos Bs = ctor_round srt halos Bs \<bind> ctor_rounds n srt halos"

definition build_rounds ::
  "nat \<Rightarrow> ((parallelNode_t \<Rightarrow> parallelNode_t \<Rightarrow> bool) \<Rightarrow> parallelNode_t list \<Rightarrow> parallelNode_t list) \<Rightarrow>
   parallelNode_t \<Rightarrow> (int \<times> int \<times> parallelNode_t list) list \<Rightarrow> crBuild list option" where
  "build_rounds n srt uninit inputs = do {
     Bs0 \<leftarrow> those (map (\<lambda>i. init_build srt uninit (int (length inputs)) (int i) (inputs ! i))
                    [0..<length inputs]);
     ctor_rounds n srt (map (\<lambda>inp. (fst inp, fst (snd inp))) inputs) Bs0 }"

definition zero_node :: parallelNode_t where
  "zero_node = \<lparr>localId = 0, baseId = 0, rank = 0, newId = 0, sign = 0\<rparr>"

definition descriptor :: "int \<Rightarrow> int \<Rightarrow> int \<Rightarrow> int \<Rightarrow> parallelNode_t" where
  "descriptor nid bid rk sg = \<lparr>localId = 0, baseId = bid, rank = rk, newId = nid, sign = sg\<rparr>"

subsection \<open>The sign propagation inside the constructor\<close>

text \<open>
  Rank 0 of three processes, with one local node it does not own and three descriptors
  for it, all naming rank 1: two of them carry \<open>baseId\<close> 5 and one carries 7. The
  constructor checks nothing and runs. \<open>group_signs\<close> lists \<open>abs(baseId)\<close> and \<open>sign\<close> of the
  node array of a process.
\<close>

definition two_ids :: "(int \<times> int \<times> parallelNode_t list) list" where
  "two_ids = [(0, 1, [descriptor 0 5 1 (- 2), descriptor 0 7 1 (- 2), descriptor 0 5 1 2]),
              (0, 0, []), (0, 0, [])]"

definition group_signs :: "crBuild \<Rightarrow> (int \<times> int) list" where
  "group_signs B = map (\<lambda>n. (absId n, sign n)) (nodes (locals B))"


text \<open>The array that the sort of line 655 hands to the pass on rank 0 in the first round.\<close>

definition mixed_run :: "parallelNode_t list" where
  "mixed_run =
     [\<lparr>localId = 0, baseId = - 5, rank = 0, newId = 0, sign = - 2\<rparr>,
      \<lparr>localId = 1, baseId = 5, rank = 1, newId = 0, sign = - 2\<rparr>,
      \<lparr>localId = 2, baseId = 7, rank = 1, newId = 0, sign = - 2\<rparr>,
      \<lparr>localId = 3, baseId = 5, rank = 1, newId = 0, sign = 2\<rparr>]"

text \<open>
  Claim C4 as stated fails: it speaks of every group of records sharing one
  \<open>abs(baseId)\<close>, and the pass sees neighbours only. On the input above the array of
  rank 0 after the first round holds three records of the group 5, one of them with sign
  2 and two with sign \<open>- 2\<close>, the record of group 7 between them; the pass leaves it as
  it was handed.
\<close>

theorem C4_counterexample:
  "map_option (map group_signs) (build_rounds 1 sort_by zero_node two_ids)
     = Some [[(5, - 2), (5, - 2), (7, - 2), (5, 2)], [], []] \<and>
   map_option (map (\<lambda>B. nodes (locals B))) (build_rounds 1 sort_by zero_node two_ids)
     = Some [propagate_sign mixed_run, [], []] \<and>
   map (\<lambda>n. (absId n, sign n)) mixed_run = [(5, - 2), (5, - 2), (7, - 2), (5, 2)] \<and>
   propagate_sign mixed_run = mixed_run"
proof -
  have 1: "map_option (map group_signs) (build_rounds 1 sort_by zero_node two_ids)
     = Some [[(5, - 2), (5, - 2), (7, - 2), (5, 2)], [], []]" by code_simp
  have 2: "map_option (map (\<lambda>B. nodes (locals B))) (build_rounds 1 sort_by zero_node two_ids)
     = Some [propagate_sign mixed_run, [], []]" by code_simp
  have 3: "map (\<lambda>n. (absId n, sign n)) mixed_run = [(5, - 2), (5, - 2), (7, - 2), (5, 2)]" by code_simp
  have 4: "propagate_sign mixed_run = mixed_run" by code_simp
  from 1 2 3 4 show ?thesis by blast
qed

subsection \<open>A single process\<close>
















section \<open>The forward schedule inside the transposed one\<close>

subsection \<open>Loops that can fail, step by step\<close>

lemma sendIds_le: "length (sendIdsN_of sn) \<le> length (sendIdsT_of sn)"
  unfolding sendIdsN_of_def sendIdsT_of_def by simp

lemma ofold_Nil [simp]: "ofold f [] s = Some s"
  by (simp add: ofold_def)

lemma ofold_snoc: "ofold f (xs @ [x]) s = ofold f xs s \<bind> f x"
  by (simp add: ofold_def)

lemma ofold_None: "fold (\<lambda>x acc. acc \<bind> f x) xs None = None"
  by (induction xs) simp_all

lemma ofold_Cons: "ofold f (x # xs) s = f x s \<bind> ofold f xs"
proof (cases "f x s")
  case None
  then show ?thesis by (simp add: ofold_def ofold_None)
next
  case (Some t)
  then show ?thesis by (simp add: ofold_def)
qed

lemma ofold_append: "ofold f (xs @ ys) s = ofold f xs s \<bind> ofold f ys"
proof (induction xs arbitrary: s)
  case Nil
  then show ?case by simp
next
  case (Cons x xs)
  show ?case
    by (cases "f x s") (simp_all add: ofold_Cons Cons.IH)
qed

lemma ofold_upt_Suc:
  "ofold f [0..<Suc n] s = Some t \<Longrightarrow> \<exists>u. ofold f [0..<n] s = Some u \<and> f n u = Some t"
  by (auto simp: ofold_snoc split: bind_splits)

lemma set_newIds_Suc:
  "a \<le> e \<Longrightarrow> set_newIds ns a (Suc e) v =
     (set_newIds ns a e v)[e := (set_newIds ns a e v ! e)\<lparr>newId := v\<rparr>]"
  by (simp add: set_newIds_def)

lemma set_newIds_empty: "e \<le> a \<Longrightarrow> set_newIds ns a e v = ns"
  by (simp add: set_newIds_def)

lemma set_newIds_length [simp]: "length (set_newIds ns a e v) = length ns"
proof (induction e)
  case 0
  then show ?case by (simp add: set_newIds_empty)
next
  case (Suc e)
  then show ?case by (cases "a \<le> e") (simp_all add: set_newIds_Suc set_newIds_empty)
qed

lemma set_newIds_nth:
  "i < length ns \<Longrightarrow>
   set_newIds ns a e v ! i = (if a \<le> i \<and> i < e then (ns ! i)\<lparr>newId := v\<rparr> else ns ! i)"
proof (induction e)
  case 0
  then show ?case by (simp add: set_newIds_empty)
next
  case (Suc e)
  show ?case
  proof (cases "a \<le> e")
    case True
    with Suc show ?thesis
      by (cases "i = e") (auto simp: set_newIds_Suc nth_list_update)
  next
    case False
    then show ?thesis by (simp add: set_newIds_empty)
  qed
qed

text \<open>
  The counting loop of lines 429--453 and the loop of lines 456--497 that hands out the
  ids see the same groups: the second one writes new ids only, and only behind its
  cursor. \<open>same_groups ys xs k\<close>: the arrays differ in the new ids only, and in those
  only before \<open>k\<close>.
\<close>

definition same_groups :: "parallelNode_t list \<Rightarrow> parallelNode_t list \<Rightarrow> nat \<Rightarrow> bool" where
  "same_groups ys xs k \<longleftrightarrow>
     length ys = length xs \<and>
     (\<forall>i<length xs. sign (ys ! i) = sign (xs ! i) \<and> baseId (ys ! i) = baseId (xs ! i) \<and>
        localId (ys ! i) = localId (xs ! i) \<and> rank (ys ! i) = rank (xs ! i)) \<and>
     (\<forall>i. k \<le> i \<and> i < length xs \<longrightarrow> newId (ys ! i) = newId (xs ! i))"

lemma same_groups_refl: "same_groups xs xs 0"
  by (simp add: same_groups_def)

lemma same_groups_set:
  assumes "same_groups ys xs k" "k \<le> e"
  shows "same_groups (set_newIds ys k e v) xs e"
  using assms unfolding same_groups_def by (simp add: set_newIds_nth)

lemma same_groups_group_end:
  assumes "same_groups ys xs k" "n < length xs"
  shows "group_end ys n = group_end xs n"
proof (cases "n = length xs - 1")
  case True
  then show ?thesis using assms by (simp add: group_end_def same_groups_def)
next
  case False
  with assms(2) have "n + 1 < length xs" by simp
  with assms show ?thesis by (simp add: group_end_def same_groups_def absId_def)
qed

lemma same_groups_positive:
  assumes "same_groups ys xs k" "e \<le> length xs"
  shows "positive_in ys s e = positive_in xs s e"
proof -
  have f: "find (\<lambda>i. sign (ys ! i) > 0) [s..<e] = find (\<lambda>i. sign (xs ! i) > 0) [s..<e]"
    by (rule find_upt_cong) (use assms in \<open>simp add: same_groups_def\<close>)
  show ?thesis
  proof (cases "find (\<lambda>i. sign (xs ! i) > 0) [s..<e]")
    case None
    then show ?thesis unfolding positive_in_def f by simp
  next
    case (Some j)
    then have "j < e" by (simp add: find_upt_Some)
    with assms have "sign (ys ! j) = sign (xs ! j)" by (simp add: same_groups_def)
    then show ?thesis unfolding positive_in_def f Some by simp
  qed
qed

lemma positive_in_pos: "positive_in xs s e = Some v \<Longrightarrow> v > 0"
  unfolding positive_in_def by (auto simp: find_upt_Some)

definition reindex_inv :: "int \<Rightarrow> parallelNode_t list \<Rightarrow> int \<Rightarrow> nat \<Rightarrow> crAssign \<Rightarrow> bool" where
  "reindex_inv Nhalo' xs E0 n st \<longleftrightarrow>
     (let c = fold (count_step Nhalo' xs) [0..<n] (0, 0, 0) in
      a_start st = fst c \<and> a_extN st = Nhalo' + fst (snd c) \<and> E0 \<le> a_extT st \<and>
      a_start st \<le> n \<and> same_groups (a_nodes st) xs (a_start st))"

lemma reindex_inv_step:
  assumes inv: "reindex_inv Nhalo' xs E0 n st" and n: "n < length xs"
    and step: "assign_step Nhalo' n st = Some st'"
  shows "reindex_inv Nhalo' xs E0 (Suc n) st'"
proof -
  define c where "c = fold (count_step Nhalo' xs) [0..<n] (0, 0, 0)"
  from inv have s: "a_start st = fst c" and eN: "a_extN st = Nhalo' + fst (snd c)"
    and eT: "E0 \<le> a_extT st" and le: "a_start st \<le> n" and sg: "same_groups (a_nodes st) xs (a_start st)"
    unfolding reindex_inv_def c_def Let_def by blast+
  have c': "fold (count_step Nhalo' xs) [0..<Suc n] (0, 0, 0) = count_step Nhalo' xs n c"
    by (simp add: c_def)
  have ge: "group_end (a_nodes st) n = group_end xs n"
    by (rule same_groups_group_end[OF sg n])
  have nid: "newId (a_nodes st ! a_start st) = newId (xs ! a_start st)"
    using sg le n unfolding same_groups_def by simp
  have pos: "positive_in (a_nodes st) (a_start st) (n + 1) = positive_in xs (a_start st) (n + 1)"
    by (rule same_groups_positive[OF sg]) (use n in simp)
  show ?thesis
  proof (cases "group_end xs n")
    case False
    with step ge have "st' = st" by (simp add: assign_step_def Let_def)
    moreover have "count_step Nhalo' xs n c = c" using False by (simp add: count_step_def Let_def)
    ultimately show ?thesis
      unfolding reindex_inv_def Let_def c' using s eN eT le sg by simp
  next
    case True
    have ge': "group_end (a_nodes st) n" using ge True by simp
    have sg': "same_groups (set_newIds (a_nodes st) (a_start st) (n + 1) v) xs (n + 1)" for v
      by (rule same_groups_set[OF sg]) (use le in simp)
    show ?thesis
    proof (cases "newId (xs ! fst c) \<ge> Nhalo' \<or> newId (xs ! fst c) = - 1")
      case False
      with step ge' nid s have st': "st' = st\<lparr>a_start := n + 1,
          a_nodes := set_newIds (a_nodes st) (a_start st) (n + 1) (newId (xs ! fst c))\<rparr>"
        by (auto simp: assign_step_def Let_def)
      have cs: "count_step Nhalo' xs n c = (n + 1, fst (snd c), snd (snd c))"
        using True False by (simp add: count_step_def Let_def)
      show ?thesis
        unfolding reindex_inv_def Let_def c' cs st' using eN eT sg' by simp
    next
      case ext: True
      show ?thesis
      proof (cases "positive_in xs (fst c) (n + 1)")
        case None
        with step ge' nid s ext pos obtain im where st': "st' = st\<lparr>a_start := n + 1,
            a_extN := a_extN st, a_extT := a_extT st + 1, a_indexMap := im,
            a_nodes := set_newIds (a_nodes st) (a_start st) (n + 1) (a_extT st)\<rparr>"
          by (auto simp: assign_step_def Let_def split: bind_splits)
        have cs: "count_step Nhalo' xs n c = (n + 1, fst (snd c), snd (snd c) + 1)"
          using True ext None by (simp add: count_step_def Let_def)
        show ?thesis
          unfolding reindex_inv_def Let_def c' cs st' using eN eT sg' by simp
      next
        case (Some v)
        then have v: "v > 0" by (rule positive_in_pos)
        with Some step ge' nid s ext pos obtain im where st': "st' = st\<lparr>a_start := n + 1,
            a_extN := a_extN st + 1, a_extT := a_extT st, a_indexMap := im,
            a_nodes := set_newIds (a_nodes st) (a_start st) (n + 1) (a_extN st)\<rparr>"
          by (auto simp: assign_step_def Let_def split: bind_splits)
        have cs: "count_step Nhalo' xs n c = (n + 1, fst (snd c) + 1, snd (snd c) + 1)"
          using True ext Some by (simp add: count_step_def Let_def)
        show ?thesis
          unfolding reindex_inv_def Let_def c' cs st' using eN eT sg' by simp
      qed
    qed
  qed
qed

lemma reindex_inv_fold:
  assumes "ofold (assign_step Nhalo') [0..<n] st0 = Some st" "n \<le> length xs"
    and "reindex_inv Nhalo' xs E0 0 st0"
  shows "reindex_inv Nhalo' xs E0 n st"
  using assms
proof (induction n arbitrary: st)
  case 0
  then show ?case by simp
next
  case (Suc n)
  from ofold_upt_Suc[OF Suc.prems(1)] obtain u where
    u: "ofold (assign_step Nhalo') [0..<n] st0 = Some u" and st: "assign_step Nhalo' n u = Some st"
    by blast
  have "reindex_inv Nhalo' xs E0 n u"
    by (rule Suc.IH[OF u _ Suc.prems(3)]) (use Suc.prems(2) in simp)
  then show ?case
    by (rule reindex_inv_step) (use Suc.prems(2) st in simp_all)
qed

lemma reindex_facts:
  assumes "reindex Nhalo' xs = Some a"
  shows "a_extN a = Nhalo' + fst (count_ext Nhalo' xs)"
    and "Nhalo' + fst (count_ext Nhalo' xs) \<le> a_extT a"
    and "same_groups (a_nodes a) xs (a_start a)"
proof -
  define E0 where "E0 = Nhalo' + fst (count_ext Nhalo' xs)"
  define st0 where "st0 = \<lparr>a_start = 0, a_extN = Nhalo', a_extT = E0,
         a_indexMap = replicate (nat (snd (count_ext Nhalo' xs))) 0, a_nodes = xs\<rparr>"
  from assms have f: "ofold (assign_step Nhalo') [0..<length xs] st0 = Some a"
    unfolding reindex_def Let_def st0_def E0_def .
  have i0: "reindex_inv Nhalo' xs E0 0 st0"
    unfolding reindex_inv_def st0_def by (simp add: same_groups_refl)
  have "reindex_inv Nhalo' xs E0 (length xs) a"
    by (rule reindex_inv_fold[OF f _ i0]) simp
  then show "a_extN a = Nhalo' + fst (count_ext Nhalo' xs)"
    and "Nhalo' + fst (count_ext Nhalo' xs) \<le> a_extT a"
    and "same_groups (a_nodes a) xs (a_start a)"
    unfolding reindex_inv_def Let_def count_ext_def E0_def by blast+
qed

lemma reindex_ext_le: "reindex Nhalo' xs = Some a \<Longrightarrow> a_extN a \<le> a_extT a"
  using reindex_facts(1,2)[of Nhalo' xs a] by simp


text \<open>What the constructor keeps true of the two schedules of a process.\<close>

definition level_le :: "crLevel \<Rightarrow> crLevel \<Rightarrow> bool" where
  "level_le a b \<longleftrightarrow>
     Nsend a \<le> Nsend b \<and> recvOffset a \<le> recvOffset b \<and> Nrecv0 a \<le> Nrecv0 b \<and> Nrecv1 a \<le> Nrecv1 b"

definition build_ok :: "crBuild \<Rightarrow> bool" where
  "build_ok B \<longleftrightarrow>
     NhaloExtN (locals B) \<le> NhaloExtT (locals B) \<and> length (lvN B) = length (lvT B) \<and>
     (\<forall>l<length (lvT B). level_le (lvN B ! l) (lvT B ! l))"

definition msg_ok :: "crMsg option \<Rightarrow> bool" where
  "msg_ok m \<longleftrightarrow> (case m of None \<Rightarrow> True | Some x \<Rightarrow> m_NentriesSendN x \<le> m_NentriesSendT x)"

lemma round_msg_ok: "msg_ok (Some (round_msg r L))"
  unfolding msg_ok_def round_msg_def Let_def using sendIds_le by simp

lemma fetch_ok: "msg_ok (fetch Bs q r)"
  unfolding fetch_def Let_def using round_msg_ok by (simp add: msg_ok_def)

lemma round_recv_ok:
  assumes r: "round_recv srt size' r NhaloP' Nhalo' m0 m1 B = Some B'"
    and B: "build_ok B" and m: "msg_ok m0" "msg_ok m1"
  shows "build_ok B'"
proof -
  from r obtain a xs gN gT where
    a: "reindex Nhalo' (srt by_baseId (set_localIds (keptNodes r (locals B) @
          (case m0 of Some m \<Rightarrow> m_nodes m | None \<Rightarrow> []) @ (case m1 of Some m \<Rightarrow> m_nodes m | None \<Rightarrow> [])))) = Some a"
    and B': "B' = \<lparr>locals = \<lparr>np = fst (shrink r (np (locals B)) (np_offset (locals B))),
             np_offset = snd (shrink r (np (locals B)) (np_offset (locals B))),
             nodes = propagate_sign (srt by_newId xs),
             haloBuf_size = (if NhaloExtT (locals B) + (case m0 of Some m \<Rightarrow> m_NentriesSendT m | None \<Rightarrow> 0)
                  + (case m1 of Some m \<Rightarrow> m_NentriesSendT m | None \<Rightarrow> 0) > haloBuf_size (locals B)
                then NhaloExtT (locals B) + (case m0 of Some m \<Rightarrow> m_NentriesSendT m | None \<Rightarrow> 0)
                  + (case m1 of Some m \<Rightarrow> m_NentriesSendT m | None \<Rightarrow> 0) else haloBuf_size (locals B)),
             NhaloExtT = a_extT a, NhaloExtN = a_extN a\<rparr>,
          lvN = lvN B @ [\<lparr>Nmsg = snd (level_partner r (np (locals B)) (np_offset (locals B))),
                 partner = fst (level_partner r (np (locals B)) (np_offset (locals B))),
                 Nsend = int (length (sendIdsN_of (sendNodes r (locals B)))),
                 Nrecv0 = (case m0 of Some m \<Rightarrow> m_NentriesSendN m | None \<Rightarrow> 0),
                 Nrecv1 = (case m1 of Some m \<Rightarrow> m_NentriesSendN m | None \<Rightarrow> 0),
                 recvOffset = NhaloExtN (locals B),
                 sendIds = sendIdsN_of (sendNodes r (locals B)), gather = gN\<rparr>],
          lvT = lvT B @ [\<lparr>Nmsg = snd (level_partner r (np (locals B)) (np_offset (locals B))),
                 partner = fst (level_partner r (np (locals B)) (np_offset (locals B))),
                 Nsend = int (length (sendIdsT_of (sendNodes r (locals B)))),
                 Nrecv0 = (case m0 of Some m \<Rightarrow> m_NentriesSendT m | None \<Rightarrow> 0),
                 Nrecv1 = (case m1 of Some m \<Rightarrow> m_NentriesSendT m | None \<Rightarrow> 0),
                 recvOffset = NhaloExtT (locals B),
                 sendIds = sendIdsT_of (sendNodes r (locals B)), gather = gT\<rparr>]\<rparr>"
    unfolding round_recv_def Let_def by (auto split: bind_splits prod.splits)
  have e: "a_extN a \<le> a_extT a" by (rule reindex_ext_le[OF a])
  have m0: "(case m0 of Some m \<Rightarrow> m_NentriesSendN m | None \<Rightarrow> 0) \<le> (case m0 of Some m \<Rightarrow> m_NentriesSendT m | None \<Rightarrow> 0)"
    using m(1) by (cases m0) (simp_all add: msg_ok_def)
  have m1: "(case m1 of Some m \<Rightarrow> m_NentriesSendN m | None \<Rightarrow> 0) \<le> (case m1 of Some m \<Rightarrow> m_NentriesSendT m | None \<Rightarrow> 0)"
    using m(2) by (cases m1) (simp_all add: msg_ok_def)
  from B have len: "length (lvN B) = length (lvT B)" and off: "NhaloExtN (locals B) \<le> NhaloExtT (locals B)"
    and old: "\<And>l. l < length (lvT B) \<Longrightarrow> level_le (lvN B ! l) (lvT B ! l)"
    unfolding build_ok_def by blast+
  from B' have p: "NhaloExtN (locals B') = a_extN a" "NhaloExtT (locals B') = a_extT a"
    "length (lvN B') = Suc (length (lvN B))" "length (lvT B') = Suc (length (lvT B))"
    "\<And>l. l < length (lvT B) \<Longrightarrow> lvN B' ! l = lvN B ! l"
    "\<And>l. l < length (lvT B) \<Longrightarrow> lvT B' ! l = lvT B ! l"
    "level_le (lvN B' ! length (lvT B)) (lvT B' ! length (lvT B))"
    using len off m0 m1 sendIds_le[of "sendNodes r (locals B)"]
    by (simp_all add: nth_append level_le_def)
  show ?thesis
    unfolding build_ok_def
  proof (intro conjI allI impI)
    show "NhaloExtN (locals B') \<le> NhaloExtT (locals B')" using p e by simp
    show "length (lvN B') = length (lvT B')" using p len by simp
    fix l assume "l < length (lvT B')"
    then have "l < length (lvT B) \<or> l = length (lvT B)" using p(4) by auto
    then show "level_le (lvN B' ! l) (lvT B' ! l)"
      using p(5,6,7) old by auto
  qed
qed


lemma map_option_Some_eq: "map_option Some x = Some m \<Longrightarrow> m = x"
  by (cases x) auto

lemma ctor_round_nth:
  assumes "ctor_round srt halos Bs = Some Bs'" and i: "i < length Bs"
  shows "(if np (locals (Bs ! i)) > 1 then
           (\<exists>m0 m1. msg_ok m0 \<and> msg_ok m1 \<and>
              round_recv srt (int (length Bs)) (int i) (fst (halos ! i)) (snd (halos ! i)) m0 m1 (Bs ! i)
                = Some (Bs' ! i))
          else Bs' ! i = Bs ! i)"
proof -
  note t = those_map_Some[OF assms(1)[unfolded ctor_round_def]]
  have idx: "[0..<length Bs] ! i = i" using i by simp
  from t(2)[of i] i have e: "(let r = int i; B = Bs ! i; L = locals B in
        if np L > 1 then
          (let pm = level_partner r (np L) (np_offset L);
               r_half = (np L + 1) div 2 + np_offset L
           in do {
             m0 \<leftarrow> (if snd pm > 0 then map_option Some (fetch Bs (fst pm) r) else Some None);
             m1 \<leftarrow> (if snd pm = 2 then map_option Some (fetch Bs (r_half - 1) r) else Some None);
             round_recv srt (int (length Bs)) r (fst (halos ! i)) (snd (halos ! i)) m0 m1 B })
        else Some B) = Some (Bs' ! i)"
    unfolding idx by simp
  show ?thesis
  proof (cases "np (locals (Bs ! i)) > 1")
    case False
    with e show ?thesis by (simp add: Let_def)
  next
    case True
    with e obtain m0 m1 where
      m0: "(if snd (level_partner (int i) (np (locals (Bs ! i))) (np_offset (locals (Bs ! i)))) > 0
            then map_option Some (fetch Bs (fst (level_partner (int i) (np (locals (Bs ! i))) (np_offset (locals (Bs ! i))))) (int i))
            else Some None) = Some m0"
      and m1: "(if snd (level_partner (int i) (np (locals (Bs ! i))) (np_offset (locals (Bs ! i)))) = 2
            then map_option Some (fetch Bs ((np (locals (Bs ! i)) + 1) div 2 + np_offset (locals (Bs ! i)) - 1) (int i))
            else Some None) = Some m1"
      and r: "round_recv srt (int (length Bs)) (int i) (fst (halos ! i)) (snd (halos ! i)) m0 m1 (Bs ! i) = Some (Bs' ! i)"
      by (auto simp: Let_def split: bind_splits)
    have none: "msg_ok None" by (simp add: msg_ok_def)
    have k: "msg_ok m" if "(if c then map_option Some (fetch Bs q (int i)) else Some None) = Some m" for c q m
    proof (cases c)
      case True
      with that have "map_option Some (fetch Bs q (int i)) = Some m" by simp
      from map_option_Some_eq[OF this] show ?thesis by (simp only: fetch_ok)
    next
      case False
      with that show ?thesis by (simp add: none)
    qed
    have "msg_ok m0" by (rule k[OF m0])
    moreover have "msg_ok m1" by (rule k[OF m1])
    ultimately show ?thesis using True r by auto
  qed
qed

lemma ctor_round_ok:
  assumes r: "ctor_round srt halos Bs = Some Bs'" and ok: "\<forall>B\<in>set Bs. build_ok B"
  shows "\<forall>B\<in>set Bs'. build_ok B"
proof
  fix B assume "B \<in> set Bs'"
  then obtain i where i: "i < length Bs'" "B = Bs' ! i" by (auto simp: in_set_conv_nth)
  have l: "length Bs' = length Bs" by (rule ctor_round_np(1)[OF r])
  have iB: "i < length Bs" using i l by simp
  have oki: "build_ok (Bs ! i)" using ok iB by simp
  from ctor_round_nth[OF r iB] show "build_ok B"
    unfolding i(2) using oki round_recv_ok by (auto split: if_splits)
qed

lemma ctor_loop_ok:
  "ctor_loop srt halos Bs = Some Bs' \<Longrightarrow> \<forall>B\<in>set Bs. build_ok B \<Longrightarrow> \<forall>B\<in>set Bs'. build_ok B"
proof (induction srt halos Bs rule: ctor_loop.induct)
  case (1 srt halos Bs)
  show ?case
  proof (cases "\<exists>B\<in>set Bs. np (locals B) > 1")
    case False
    with 1 show ?thesis by (simp add: ctor_loop.simps)
  next
    case True
    with "1.prems"(1) obtain Bs1 where r: "ctor_round srt halos Bs = Some Bs1"
      and l: "ctor_loop srt halos Bs1 = Some Bs'"
      by (subst (asm) ctor_loop.simps) (auto split: option.splits)
    show ?thesis
      by (rule "1.IH"[OF True r l ctor_round_ok[OF r "1.prems"(2)]])
  qed
qed

lemma init_build_ok: "init_build srt uninit size' r inp = Some B \<Longrightarrow> build_ok B"
  unfolding init_build_def build_ok_def by auto

lemma build_all_ok:
  assumes "build_all srt uninit inputs = Some Bs"
  shows "\<forall>B\<in>set Bs. build_ok B"
proof -
  from assms obtain Bs0 where
    i: "those (map (\<lambda>i. init_build srt uninit (int (length inputs)) (int i) (inputs ! i)) [0..<length inputs]) = Some Bs0"
    and l: "ctor_loop srt (map (\<lambda>inp. (fst inp, fst (snd inp))) inputs) Bs0 = Some Bs"
    unfolding build_all_def by (auto split: bind_splits)
  note t = those_map_Some[OF i]
  have "\<forall>B\<in>set Bs0. build_ok B"
  proof
    fix B assume "B \<in> set Bs0"
    then obtain j where j: "j < length Bs0" "B = Bs0 ! j" by (auto simp: in_set_conv_nth)
    with t(1) have jl: "j < length [0..<length inputs]" by simp
    from t(2)[OF jl] show "build_ok B" unfolding j(2) by (rule init_build_ok)
  qed
  then show ?thesis by (rule ctor_loop_ok[OF l])
qed


lemma fold_max_ge:
  fixes f :: "nat \<Rightarrow> int"
  shows "m0 \<le> fold (\<lambda>k m. let v = f k in if v > m then v else m) ks m0"
    and "k \<in> set ks \<Longrightarrow> f k \<le> fold (\<lambda>k m. let v = f k in if v > m then v else m) ks m0"
proof -
  have a: "m0 \<le> fold (\<lambda>k m. let v = f k in if v > m then v else m) js m0" for m0 js
  proof (induction js arbitrary: m0)
    case Nil
    then show ?case by simp
  next
    case (Cons x xs)
    have "m0 \<le> (let v = f x in if v > m0 then v else m0)" by (simp add: Let_def)
    also have "\<dots> \<le> fold (\<lambda>k m. let v = f k in if v > m then v else m) xs (let v = f x in if v > m0 then v else m0)"
      by (rule Cons.IH)
    finally show ?case by simp
  qed
  show "m0 \<le> fold (\<lambda>k m. let v = f k in if v > m then v else m) ks m0" by (rule a)
  show "k \<in> set ks \<Longrightarrow> f k \<le> fold (\<lambda>k m. let v = f k in if v > m then v else m) ks m0"
  proof (induction ks arbitrary: m0)
    case Nil
    then show ?case by simp
  next
    case (Cons x xs)
    show ?case
    proof (cases "k = x")
      case True
      have "f k \<le> (let v = f x in if v > m0 then v else m0)" using True by (simp add: Let_def)
      also have "\<dots> \<le> fold (\<lambda>k m. let v = f k in if v > m then v else m) xs (let v = f x in if v > m0 then v else m0)"
        by (rule a)
      finally show ?thesis by simp
    next
      case False
      with Cons.prems have "k \<in> set xs" by simp
      from Cons.IH[OF this] show ?thesis by simp
    qed
  qed
qed

lemma NsendMax_of_ge: "l < length lt \<Longrightarrow> Nsend (lt ! l) \<le> NsendMax_of lt"
  unfolding NsendMax_of_def by (rule fold_max_ge(2)) simp

lemma NrecvMax_of_ge:
  "l < length lt \<Longrightarrow> recvOffset (lt ! l) + Nrecv0 (lt ! l) + Nrecv1 (lt ! l) \<le> NrecvMax_of lt"
  unfolding NrecvMax_of_def
  by (rule fold_max_ge(2)[where f = "\<lambda>k. recvOffset (lt ! k) + Nrecv0 (lt ! k) + Nrecv1 (lt ! k)"]) simp

lemma AllocBuffer_plan [simp]:
  "levelsN (AllocBuffer junk b s) = levelsN s" "levelsT (AllocBuffer junk b s) = levelsT s"
  "Nlevels (AllocBuffer junk b s) = Nlevels s" "NhaloP (AllocBuffer junk b s) = NhaloP s"
  "Nhalo (AllocBuffer junk b s) = Nhalo s" "gpu_aware (AllocBuffer junk b s) = gpu_aware s"
  by (simp_all add: AllocBuffer_def Let_def)

lemma finish_ctor_fields:
  "levelsN (finish_ctor junk dsize gpu halo B) = lvN B"
  "levelsT (finish_ctor junk dsize gpu halo B) = lvT B"
  "Nlevels (finish_ctor junk dsize gpu halo B) = length (lvT B)"
  "NsendMax (finish_ctor junk dsize gpu halo B) = NsendMax_of (lvT B)"
  "NrecvMax (finish_ctor junk dsize gpu halo B) = NrecvMax_of (lvT B)"
  "NhaloP (finish_ctor junk dsize gpu halo B) = fst halo"
  "Nhalo (finish_ctor junk dsize gpu halo B) = snd halo"
  "gpu_aware (finish_ctor junk dsize gpu halo B) = gpu"
  by (simp_all add: finish_ctor_def)

lemma constructor_nth:
  assumes "constructor srt uninit junk dsize gpu inputs = Some rs"
  shows "\<exists>Bs. build_all srt uninit inputs = Some Bs \<and> length rs = length Bs \<and>
    (\<forall>i<length Bs.
       rs ! i = finish_ctor junk dsize gpu (fst (inputs ! i), fst (snd (inputs ! i))) (Bs ! i))"
  using assms unfolding constructor_def by auto

text \<open>
  Claim C9. In every object the constructor returns, the two schedules have one entry
  per level; at every level the forward schedule sends no more rows than the transposed
  one, starts its receives no later, and receives no more rows in either message, so its
  receive footprint is no larger; and \<^verbatim>\<open>NsendMax\<close> and \<^verbatim>\<open>NrecvMax\<close>, which lines 690--697
  take from the transposed schedule, bound the send count and the receive footprint of
  both schedules at every level.
\<close>

theorem C9_forward_within_transposed:
  assumes "constructor srt uninit junk dsize gpu inputs = Some rs"
    and "i < length rs" and "l < Nlevels (rs ! i)"
  shows "length (levelsN (rs ! i)) = Nlevels (rs ! i) \<and>
    length (levelsT (rs ! i)) = Nlevels (rs ! i) \<and>
    Nsend (levelsN (rs ! i) ! l) \<le> Nsend (levelsT (rs ! i) ! l) \<and>
    recvOffset (levelsN (rs ! i) ! l) \<le> recvOffset (levelsT (rs ! i) ! l) \<and>
    Nrecv0 (levelsN (rs ! i) ! l) \<le> Nrecv0 (levelsT (rs ! i) ! l) \<and>
    Nrecv1 (levelsN (rs ! i) ! l) \<le> Nrecv1 (levelsT (rs ! i) ! l) \<and>
    recvOffset (levelsN (rs ! i) ! l) + Nrecv0 (levelsN (rs ! i) ! l) + Nrecv1 (levelsN (rs ! i) ! l)
      \<le> recvOffset (levelsT (rs ! i) ! l) + Nrecv0 (levelsT (rs ! i) ! l) + Nrecv1 (levelsT (rs ! i) ! l) \<and>
    Nsend (levelsT (rs ! i) ! l) \<le> NsendMax (rs ! i) \<and>
    Nsend (levelsN (rs ! i) ! l) \<le> NsendMax (rs ! i) \<and>
    recvOffset (levelsT (rs ! i) ! l) + Nrecv0 (levelsT (rs ! i) ! l) + Nrecv1 (levelsT (rs ! i) ! l)
      \<le> NrecvMax (rs ! i) \<and>
    recvOffset (levelsN (rs ! i) ! l) + Nrecv0 (levelsN (rs ! i) ! l) + Nrecv1 (levelsN (rs ! i) ! l)
      \<le> NrecvMax (rs ! i)"
proof -
  from assms(1) obtain Bs where b: "build_all srt uninit inputs = Some Bs" and len: "length rs = length Bs"
    and nth: "\<And>i. i < length Bs \<Longrightarrow>
       rs ! i = finish_ctor junk dsize gpu (fst (inputs ! i), fst (snd (inputs ! i))) (Bs ! i)"
    using constructor_nth[OF assms(1)] by blast
  have iB: "i < length Bs" using assms(2) len by simp
  note f = finish_ctor_fields[of junk dsize gpu "(fst (inputs ! i), fst (snd (inputs ! i)))" "Bs ! i",
      folded nth[OF iB]]
  have ok: "build_ok (Bs ! i)" using build_all_ok[OF b] iB by simp
  have l: "l < length (lvT (Bs ! i))" using assms(3) f(3) by simp
  from ok l have ln: "length (lvN (Bs ! i)) = length (lvT (Bs ! i))"
    and le: "level_le (lvN (Bs ! i) ! l) (lvT (Bs ! i) ! l)"
    unfolding build_ok_def by blast+
  note sT = NsendMax_of_ge[OF l] and rT = NrecvMax_of_ge[OF l]
  show ?thesis
    unfolding f using ln le sT rT unfolding level_le_def by (intro conjI) linarith+
qed

text \<open>
  Three processes that share one node, owned by rank 0: the input of every rank names the
  two other holders.
\<close>

definition three_ranks :: "(int \<times> int \<times> parallelNode_t list) list" where
  "three_ranks = [(1, 1, [descriptor 0 7 1 2, descriptor 0 7 2 2]),
                  (0, 1, [descriptor 0 (- 7) 0 (- 2), descriptor 0 (- 7) 2 (- 2)]),
                  (0, 1, [descriptor 0 (- 7) 0 (- 2), descriptor 0 (- 7) 1 (- 2)])]"

definition three_routers :: "nat ogsCrystalRouter_t list" where
  "three_routers = the (constructor sort_by zero_node 0 8 False three_ranks)"

theorem C9_forward_within_transposed_witness:
  "constructor sort_by zero_node 0 8 False three_ranks = Some three_routers \<and>
   (1::nat) < length three_routers \<and> (0::nat) < Nlevels (three_routers ! 1) \<and>
   Nsend (levelsN (three_routers ! 1) ! 0) = 0 \<and> Nsend (levelsT (three_routers ! 1) ! 0) = 1 \<and>
   Nsend (levelsN (three_routers ! 1) ! 0) \<le> Nsend (levelsT (three_routers ! 1) ! 0) \<and>
   NsendMax (three_routers ! 1) = 1 \<and> NrecvMax (three_routers ! 1) = 2 \<and>
   Nsend (levelsN (three_routers ! 1) ! 0) \<le> NsendMax (three_routers ! 1)"
proof -
  have c: "constructor sort_by zero_node 0 8 False three_ranks = Some three_routers" by code_simp
  have i: "(1::nat) < length three_routers" by code_simp
  have l: "(0::nat) < Nlevels (three_routers ! 1)" by code_simp
  have v: "Nsend (levelsN (three_routers ! 1) ! 0) = 0" "Nsend (levelsT (three_routers ! 1) ! 0) = 1"
    "NsendMax (three_routers ! 1) = 1" "NrecvMax (three_routers ! 1) = 2"
    by code_simp+
  from C9_forward_within_transposed[OF c i l] c i l v show ?thesis by blast
qed

section \<open>What the setup accepts\<close>

text \<open>The \<open>baseId\<close> that the loop of lines 242--250 leaves in the record of local node \<open>n\<close>.\<close>

definition claimed :: "int \<Rightarrow> parallelNode_t list \<Rightarrow> nat \<Rightarrow> int" where
  "claimed NhaloP' sharedNodes n =
     (case find (\<lambda>sn. newId sn = int n \<and> baseId sn \<noteq> 0) sharedNodes of
        None \<Rightarrow> 0
      | Some sn \<Rightarrow> if int n < NhaloP' then \<bar>baseId sn\<bar> else - \<bar>baseId sn\<bar>)"

lemma claim_baseId_Some:
  assumes "0 \<le> newId sn" "newId sn < int (length arr)"
  shows "\<exists>arr'. claim_baseId P sn arr = Some arr' \<and> length arr' = length arr \<and>
    (\<forall>n<length arr. arr' ! n =
       (if int n = newId sn \<and> baseId (arr ! n) = 0
        then (arr ! n)\<lparr>baseId := (if int n < P then \<bar>baseId sn\<bar> else - \<bar>baseId sn\<bar>)\<rparr>
        else arr ! n))"
proof -
  from assms(1) obtain k where k: "newId sn = int k" by (cases "newId sn") auto
  show ?thesis
    using assms unfolding claim_baseId_def Let_def aget_def aset_def k
    by (auto simp: nth_list_update)
qed

lemma claim_fold:
  assumes "\<forall>sn\<in>set ss. 0 \<le> newId sn \<and> newId sn < int (length arr)"
  shows "\<exists>arr'. ofold (claim_baseId P) ss arr = Some arr' \<and> length arr' = length arr \<and>
    (\<forall>n<length arr. arr' ! n =
       (if baseId (arr ! n) \<noteq> 0 then arr ! n else (arr ! n)\<lparr>baseId := claimed P ss n\<rparr>))"
  using assms
proof (induction ss arbitrary: arr)
  case Nil
  then show ?case by (simp add: claimed_def)
next
  case (Cons sn ss)
  from Cons.prems have r: "0 \<le> newId sn" "newId sn < int (length arr)" by simp_all
  from claim_baseId_Some[OF r, of P] obtain arr1 where
    c: "claim_baseId P sn arr = Some arr1" and l1: "length arr1 = length arr"
    and n1: "\<And>n. n < length arr \<Longrightarrow> arr1 ! n =
       (if int n = newId sn \<and> baseId (arr ! n) = 0
        then (arr ! n)\<lparr>baseId := (if int n < P then \<bar>baseId sn\<bar> else - \<bar>baseId sn\<bar>)\<rparr>
        else arr ! n)"
    by blast
  have "\<forall>sn\<in>set ss. 0 \<le> newId sn \<and> newId sn < int (length arr1)"
    using Cons.prems l1 by simp
  from Cons.IH[OF this] obtain arr' where
    f: "ofold (claim_baseId P) ss arr1 = Some arr'" and l': "length arr' = length arr1"
    and n': "\<And>n. n < length arr1 \<Longrightarrow> arr' ! n =
       (if baseId (arr1 ! n) \<noteq> 0 then arr1 ! n else (arr1 ! n)\<lparr>baseId := claimed P ss n\<rparr>)"
    by blast
  have "ofold (claim_baseId P) (sn # ss) arr = Some arr'"
    by (simp add: ofold_Cons c f)
  moreover have "length arr' = length arr" using l' l1 by simp
  moreover have "arr' ! n =
       (if baseId (arr ! n) \<noteq> 0 then arr ! n else (arr ! n)\<lparr>baseId := claimed P (sn # ss) n\<rparr>)"
    if n: "n < length arr" for n
  proof -
    have n1': "n < length arr1" using n l1 by simp
    show ?thesis
      unfolding n'[OF n1'] n1[OF n]
      by (auto simp: claimed_def)
  qed
  ultimately show ?case by blast
qed


lemma init_nodes_Some:
  assumes h: "0 \<le> Nhalo'"
    and ids: "\<forall>sn\<in>set sharedNodes. 0 \<le> newId sn \<and> newId sn < Nhalo' + int (length sharedNodes)"
  shows "init_nodes srt uninit r NhaloP' Nhalo' sharedNodes =
     Some (srt by_newId
       (map (\<lambda>n. (own_node r NhaloP' n)\<lparr>baseId := claimed NhaloP' sharedNodes n\<rparr>) [0..<nat Nhalo']
        @ sharedNodes))"
proof -
  define arr where "arr = map (own_node r NhaloP') [0..<nat Nhalo'] @ replicate (length sharedNodes) uninit"
  have la: "int (length arr) = Nhalo' + int (length sharedNodes)" using h by (simp add: arr_def)
  have "\<forall>sn\<in>set sharedNodes. 0 \<le> newId sn \<and> newId sn < int (length arr)"
    using ids la by simp
  from claim_fold[OF this, of NhaloP'] obtain arr' where
    f: "ofold (claim_baseId NhaloP') sharedNodes arr = Some arr'" and l: "length arr' = length arr"
    and n: "\<And>n. n < length arr \<Longrightarrow> arr' ! n =
       (if baseId (arr ! n) \<noteq> 0 then arr ! n else (arr ! n)\<lparr>baseId := claimed NhaloP' sharedNodes n\<rparr>)"
    by blast
  have "take (nat Nhalo') arr' =
      map (\<lambda>n. (own_node r NhaloP' n)\<lparr>baseId := claimed NhaloP' sharedNodes n\<rparr>) [0..<nat Nhalo']"
  proof (rule nth_equalityI)
    show "length (take (nat Nhalo') arr') =
      length (map (\<lambda>n. (own_node r NhaloP' n)\<lparr>baseId := claimed NhaloP' sharedNodes n\<rparr>) [0..<nat Nhalo'])"
      using l by (simp add: arr_def)
    fix i assume "i < length (take (nat Nhalo') arr')"
    then have i: "i < nat Nhalo'" by simp
    then have ia: "i < length arr" by (simp add: arr_def)
    have ai: "arr ! i = own_node r NhaloP' i" using i by (simp add: arr_def nth_append)
    show "take (nat Nhalo') arr' ! i =
      map (\<lambda>n. (own_node r NhaloP' n)\<lparr>baseId := claimed NhaloP' sharedNodes n\<rparr>) [0..<nat Nhalo'] ! i"
      using i n[OF ia] by (simp add: ai own_node_def)
  qed
  then show ?thesis
    unfolding init_nodes_def using h f by (simp add: arr_def)
qed

text \<open>
  Claim C8, as the code has it. Lines 231--258 validate nothing: whenever the indices
  \<open>newId\<close> of the descriptors lie inside the new array, whatever the \<open>baseId\<close> and the
  signs are, the setup completes; every local node takes the \<open>abs(baseId)\<close> of the first
  descriptor that names it with a \<open>baseId\<close> other than 0, whatever later descriptors of
  the node say, and 0 when there is none; and the descriptors enter the node list as they
  are.
\<close>

theorem C8_setup_accepts:
  assumes "0 \<le> Nhalo'"
    and "\<forall>sn\<in>set sharedNodes. 0 \<le> newId sn \<and> newId sn < Nhalo' + int (length sharedNodes)"
  shows "init_nodes srt uninit r NhaloP' Nhalo' sharedNodes =
     Some (srt by_newId
       (map (\<lambda>n. (own_node r NhaloP' n)\<lparr>baseId := claimed NhaloP' sharedNodes n\<rparr>) [0..<nat Nhalo']
        @ sharedNodes)) \<and>
    (\<forall>n<nat Nhalo'. \<forall>sn.
       find (\<lambda>sn. newId sn = int n \<and> baseId sn \<noteq> 0) sharedNodes = Some sn \<longrightarrow>
         \<bar>claimed NhaloP' sharedNodes n\<bar> = \<bar>baseId sn\<bar>) \<and>
    (\<forall>n<nat Nhalo'.
       find (\<lambda>sn. newId sn = int n \<and> baseId sn \<noteq> 0) sharedNodes = None \<longrightarrow>
         claimed NhaloP' sharedNodes n = 0)"
  using init_nodes_Some[OF assms] by (auto simp: claimed_def)

text \<open>Two processes, the first with two local nodes that no descriptor names.\<close>

definition no_ids :: "(int \<times> int \<times> parallelNode_t list) list" where
  "no_ids = [(2, 2, []), (0, 0, [])]"

theorem C8_setup_accepts_witness:
  "(0::int) \<le> 1 \<and>
   init_nodes sort_by zero_node 0 0 1 (snd (snd (two_ids ! 0))) =
     Some [\<lparr>localId = 0, baseId = - 5, rank = 0, newId = 0, sign = - 2\<rparr>,
           descriptor 0 5 1 (- 2), descriptor 0 7 1 (- 2), descriptor 0 5 1 2]"
proof -
  have a: "(0::int) \<le> 1" by simp
  have b: "\<forall>sn\<in>set (snd (snd (two_ids ! 0))). 0 \<le> newId sn \<and> newId sn < 1 + int (length (snd (snd (two_ids ! 0))))"
    by (simp add: two_ids_def descriptor_def)
  have c: "sort_by by_newId
       (map (\<lambda>n. (own_node 0 0 n)\<lparr>baseId := claimed 0 (snd (snd (two_ids ! 0))) n\<rparr>) [0..<nat 1]
        @ snd (snd (two_ids ! 0))) =
     [\<lparr>localId = 0, baseId = - 5, rank = 0, newId = 0, sign = - 2\<rparr>,
           descriptor 0 5 1 (- 2), descriptor 0 7 1 (- 2), descriptor 0 5 1 2]"
    by code_simp
  from C8_setup_accepts[OF a b, of sort_by zero_node 0 0, THEN conjunct1] a b show ?thesis
    unfolding c by blast
qed

text \<open>
  Claim C8 as stated fails: the constructor has no check and no error path. On the
  descriptors of \<open>two_ids\<close>, where one local node is given two different \<open>baseId\<close>, it
  returns the three objects, and the transposed schedule of rank 0 sends the row of that
  node three times at its second level. On \<open>no_ids\<close>, a process with two local nodes and
  no descriptor at all, it returns as well, having merged the two nodes into one group
  with \<open>baseId\<close> 0.
\<close>

theorem C8_counterexample:
  "map_option (map Nlevels) (constructor sort_by zero_node (0::nat) 8 False two_ids) = Some [2, 2, 1] \<and>
   map_option (\<lambda>rs. sendIds (levelsT (rs ! 0) ! 1)) (constructor sort_by zero_node (0::nat) 8 False two_ids)
     = Some [0, 0, 0] \<and>
   map_option (map Nlevels) (constructor sort_by zero_node (0::nat) 8 False no_ids) = Some [1, 1] \<and>
   map_option (map group_signs) (build_all sort_by zero_node no_ids) = Some [[(0, 2), (0, 2)], []] \<and>
   map_option (\<lambda>Bs. map newId (nodes (locals (Bs ! 0)))) (build_all sort_by zero_node no_ids) = Some [1, 1]"
proof -
  have 1: "map_option (map Nlevels) (constructor sort_by zero_node (0::nat) 8 False two_ids) = Some [2, 2, 1]"
    by code_simp
  have 2: "map_option (\<lambda>rs. sendIds (levelsT (rs ! 0) ! 1)) (constructor sort_by zero_node (0::nat) 8 False two_ids)
     = Some [0, 0, 0]" by code_simp
  have 3: "map_option (map Nlevels) (constructor sort_by zero_node (0::nat) 8 False no_ids) = Some [1, 1]"
    by code_simp
  have 4: "map_option (map group_signs) (build_all sort_by zero_node no_ids) = Some [[(0, 2), (0, 2)], []]"
    by code_simp
  have 5: "map_option (\<lambda>Bs. map newId (nodes (locals (Bs ! 0)))) (build_all sort_by zero_node no_ids) = Some [1, 1]"
    by code_simp
  from 1 2 3 4 5 show ?thesis by blast
qed

section \<open>A round trip on three processes\<close>

subsection \<open>The reduction of the gather engine\<close>

text \<open>
  Modelled from the spec: the reduction that \<^verbatim>\<open>ogsOperator_t::Gather\<close> applies to the rows
  of one destination row, for the integer element types. A buffer cell is a byte, an
  element is \<^verbatim>\<open>Sizeof(type)\<close> bytes in little-endian two's complement, a row is \<open>k\<close>
  elements. Every element of the result is the operator folded over the elements of the
  rows, from the neutral element of the operator, which is also the result for a row
  without columns.
\<close>

fun le_bytes :: "nat \<Rightarrow> int \<Rightarrow> nat list" where
  "le_bytes 0 v = []"
| "le_bytes (Suc n) v = nat (v mod 256) # le_bytes n (v div 256)"

definition le_val :: "nat list \<Rightarrow> int" where
  "le_val bs = foldr (\<lambda>b v. int b + 256 * v) bs 0"

definition decode :: "nat list \<Rightarrow> int" where
  "decode bs = (let v = le_val bs; m = 2 ^ (8 * length bs) in if 2 * v \<ge> m then v - m else v)"

definition encode :: "nat \<Rightarrow> int \<Rightarrow> nat list" where
  "encode sz v = le_bytes sz (v mod 2 ^ (8 * sz))"

definition op_init :: "nat \<Rightarrow> Op \<Rightarrow> int" where
  "op_init sz op = (case op of Add \<Rightarrow> 0 | Mul \<Rightarrow> 1 | MaxOp \<Rightarrow> - (2 ^ (8 * sz - 1)) | MinOp \<Rightarrow> 2 ^ (8 * sz - 1) - 1)"

definition op_apply :: "Op \<Rightarrow> int \<Rightarrow> int \<Rightarrow> int" where
  "op_apply op a b = (case op of Add \<Rightarrow> a + b | Mul \<Rightarrow> a * b | MaxOp \<Rightarrow> max a b | MinOp \<Rightarrow> min a b)"

definition reduce_ints :: "nat \<Rightarrow> Type \<Rightarrow> Op \<Rightarrow> nat list list \<Rightarrow> nat list" where
  "reduce_ints k ty op rows =
     concat (map (\<lambda>e. encode (Sizeof ty)
                    (foldl (op_apply op) (op_init (Sizeof ty) op)
                       (map (\<lambda>row. decode (take (Sizeof ty) (drop (e * Sizeof ty) row))) rows)))
                 [0..<k])"

subsection \<open>All processes of an exchange\<close>

text \<open>
  \<open>outs ! q ! l\<close> is the message that the process of rank \<open>q\<close> sends at level \<open>l\<close>, with
  its destination. Every receive of Finish names its source, and the message that a
  process sends at a level depends on what it received at earlier levels only; so there
  is one list \<open>outs\<close> for which every process, receiving what \<open>outs\<close> holds, sends what
  \<open>outs\<close> holds, and that is the exchange. \<open>pair_all outs\<close> runs Start and Finish on every
  process with the messages of \<open>outs\<close> as its receives.
\<close>

definition inbox_from :: "(int \<times> nat list) list list \<Rightarrow> nat \<Rightarrow> int \<Rightarrow> nat list" where
  "inbox_from outs l q =
     (if 0 \<le> q \<and> nat q < length outs \<and> l < length (outs ! nat q) then snd (outs ! nat q ! l) else [])"

definition pair_all ::
  "(int \<times> nat list) list list \<Rightarrow> nat \<Rightarrow> Type \<Rightarrow> Op \<Rightarrow> Transpose \<Rightarrow> bool \<Rightarrow>
   nat ogsCrystalRouter_t list \<Rightarrow> (nat ogsCrystalRouter_t \<times> (int \<times> nat list) list) option list" where
  "pair_all outs k ty op tr host ss =
     map (\<lambda>r. Start k ty op tr host (ss ! r) \<bind>
               Finish reduce_ints (inbox_from outs) (int r) k ty op tr host) [0..<length ss]"

text \<open>
  The caller puts the halo values into the halo buffer before Start and reads the result
  there after Finish: the host halo buffer when the \<open>host\<close> flag is set, the device halo
  buffer otherwise.
\<close>

definition load_halo :: "bool \<Rightarrow> nat list \<Rightarrow> nat ogsCrystalRouter_t \<Rightarrow> nat ogsCrystalRouter_t" where
  "load_halo host d s =
     (if host then set_buf (haloBuf s) (d @ drop (length d) (get_buf (haloBuf s) s)) s
      else set_o_buf (o_haloBuf s) (d @ drop (length d) (get_o_buf (o_haloBuf s) s)) s)"

definition halo_row :: "bool \<Rightarrow> nat \<Rightarrow> nat ogsCrystalRouter_t \<Rightarrow> nat list" where
  "halo_row host Nbytes s =
     take Nbytes (if host then get_buf (haloBuf s) s else get_o_buf (o_haloBuf s) s)"

subsection \<open>One shared node, forward and back\<close>

text \<open>
  The objects that the constructor builds for \<open>three_ranks\<close>, with the value 5 in the row
  of the owner (rank 0) and 9 in the rows of the two other replicas. \<open>round_trip\<close> runs
  the forward exchange and then the transposed one on its result, on 32-bit integers of
  width 1, and returns what was sent and the first halo row of every process, after each
  of the two.
\<close>

definition routers :: "bool \<Rightarrow> nat ogsCrystalRouter_t list" where
  "routers gpu = the (constructor sort_by zero_node 0 8 gpu three_ranks)"

definition loaded :: "bool \<Rightarrow> bool \<Rightarrow> nat ogsCrystalRouter_t list" where
  "loaded gpu host = map (\<lambda>r. load_halo host (if r = 0 then [5,0,0,0] else [9,0,0,0]) (routers gpu ! r)) [0..<3]"

definition round_trip where
  "round_trip gpu host op outsF outsT =
     (let f = pair_all outsF 1 Int32 op NoTrans host (loaded gpu host);
          t = pair_all outsT 1 Int32 op Trans host (map (\<lambda>x. fst (the x)) f)
      in (map (map_option snd) f, map (\<lambda>x. halo_row host 4 (fst (the x))) f,
          map (map_option snd) t, map (\<lambda>x. halo_row host 4 (fst (the x))) t))"


text \<open>The messages of the two exchanges, when they work and when they do not.\<close>

definition sent_forward :: "(int \<times> nat list) list list" where
  "sent_forward = [[(2, [5, 0, 0, 0]), (1, [5, 0, 0, 0])], [(2, []), (0, [])], [(0, [])]]"

definition sent_transposed :: "(int \<times> nat list) list list" where
  "sent_transposed = [[(2, [5, 0, 0, 0]), (1, [10, 0, 0, 0])], [(2, [5, 0, 0, 0]), (0, [5, 0, 0, 0])],
     [(0, [5, 0, 0, 0])]]"

definition sent_stale_forward :: "(int \<times> nat list) list list" where
  "sent_stale_forward = [[(2, [0, 0, 0, 0]), (1, [0, 0, 0, 0])], [(2, []), (0, [])], [(0, [])]]"

definition sent_stale_transposed :: "(int \<times> nat list) list list" where
  "sent_stale_transposed = [[(2, [0, 0, 0, 0]), (1, [0, 0, 0, 0])], [(2, [0, 0, 0, 0]), (0, [0, 0, 0, 0])],
     [(0, [0, 0, 0, 0])]]"

text \<open>
  Claim C1 at this input, with the operator add. With host staging, with a gpu-aware
  transport, and with the \<open>host\<close> flag on a transport that is not gpu-aware, the forward
  exchange leaves 5 in every replica and the transposed one leaves 15, three times the
  value of the owner, in the row of the owner. With the \<open>host\<close> flag on a gpu-aware
  transport the values are in the host buffers; Finish takes the send and receive
  pointers from the host buffers (\<^verbatim>\<open>gpu_aware && !host\<close> fails) but extracts and gathers on
  the device buffers (\<^verbatim>\<open>gpu_aware\<close> holds): it sends the content of a host send buffer
  that nothing wrote, the replicas keep 9 or take what the memory held, and the owner
  ends with 5.
\<close>

theorem C1_round_trip_host_flag:
  "round_trip False False Add sent_forward sent_transposed =
     (map Some sent_forward, [[5, 0, 0, 0], [5, 0, 0, 0], [5, 0, 0, 0]],
      map Some sent_transposed, [[15, 0, 0, 0], [5, 0, 0, 0], [9, 0, 0, 0]]) \<and>
   round_trip True False Add sent_forward sent_transposed =
     (map Some sent_forward, [[5, 0, 0, 0], [5, 0, 0, 0], [5, 0, 0, 0]],
      map Some sent_transposed, [[15, 0, 0, 0], [15, 0, 0, 0], [15, 0, 0, 0]]) \<and>
   round_trip False True Add sent_forward sent_transposed =
     (map Some sent_forward, [[5, 0, 0, 0], [5, 0, 0, 0], [5, 0, 0, 0]],
      map Some sent_transposed, [[15, 0, 0, 0], [15, 0, 0, 0], [15, 0, 0, 0]]) \<and>
   round_trip True True Add sent_stale_forward sent_stale_transposed =
     (map Some sent_stale_forward, [[5, 0, 0, 0], [9, 0, 0, 0], [0, 0, 0, 0]],
      map Some sent_stale_transposed, [[5, 0, 0, 0], [9, 0, 0, 0], [9, 0, 0, 0]])"
proof -
  have 1: "round_trip False False Add sent_forward sent_transposed =
     (map Some sent_forward, [[5, 0, 0, 0], [5, 0, 0, 0], [5, 0, 0, 0]],
      map Some sent_transposed, [[15, 0, 0, 0], [5, 0, 0, 0], [9, 0, 0, 0]])" by code_simp
  have 2: "round_trip True False Add sent_forward sent_transposed =
     (map Some sent_forward, [[5, 0, 0, 0], [5, 0, 0, 0], [5, 0, 0, 0]],
      map Some sent_transposed, [[15, 0, 0, 0], [15, 0, 0, 0], [15, 0, 0, 0]])" by code_simp
  have 3: "round_trip False True Add sent_forward sent_transposed =
     (map Some sent_forward, [[5, 0, 0, 0], [5, 0, 0, 0], [5, 0, 0, 0]],
      map Some sent_transposed, [[15, 0, 0, 0], [15, 0, 0, 0], [15, 0, 0, 0]])" by code_simp
  have 4: "round_trip True True Add sent_stale_forward sent_stale_transposed =
     (map Some sent_stale_forward, [[5, 0, 0, 0], [9, 0, 0, 0], [0, 0, 0, 0]],
      map Some sent_stale_transposed, [[5, 0, 0, 0], [9, 0, 0, 0], [9, 0, 0, 0]])" by code_simp
  from 1 2 3 4 show ?thesis by blast
qed

end
